theory Spec2Isabelle
  imports Main
begin

section \<open>Strings\<close>

text \<open>
  A JavaScript string is a sequence of code units. The model uses \<open>string\<close>; a
  \<open>char\<close> stands for a code unit below 256. The helpers below are the string
  methods that \<^verbatim>\<open>src/lib/toon.ts\<close> calls.
\<close>

abbreviation BSL :: char where "BSL \<equiv> CHR 0x5C"
abbreviation DQ :: char where "DQ \<equiv> CHR 0x22"
abbreviation SQ :: char where "SQ \<equiv> CHR 0x27"
abbreviation LF :: char where "LF \<equiv> CHR 0x0A"
abbreviation CR :: char where "CR \<equiv> CHR 0x0D"
abbreviation TAB :: char where "TAB \<equiv> CHR 0x09"

text \<open>
  White space as \<^verbatim>\<open>String.prototype.trim\<close> and the regular expression class
  \<^verbatim>\<open>\s\<close> see it, among the code units below 256: tab, line feed, vertical tab,
  form feed, carriage return, space and no-break space.
\<close>

definition isSpace :: "char \<Rightarrow> bool" where
  "isSpace c = (c = TAB \<or> c = LF \<or> c = CHR 0x0B \<or> c = CHR 0x0C \<or> c = CR
                \<or> c = CHR 0x20 \<or> c = CHR 0xA0)"

definition trimStart :: "string \<Rightarrow> string" where
  "trimStart s = dropWhile isSpace s"

definition trim :: "string \<Rightarrow> string" where
  "trim s = rev (dropWhile isSpace (rev (dropWhile isSpace s)))"

definition startsWith :: "string \<Rightarrow> string \<Rightarrow> bool" where
  "startsWith s p = (take (length p) s = p)"

text \<open>\<^verbatim>\<open>s.substring(n)\<close> is \<open>drop n s\<close> and \<^verbatim>\<open>s.substring(0, n)\<close> is \<open>take n s\<close>.\<close>

definition substring :: "string \<Rightarrow> nat \<Rightarrow> string" where
  "substring s n = drop n s"

fun join :: "string \<Rightarrow> string list \<Rightarrow> string" where
  "join sep [] = []"
| "join sep [x] = x"
| "join sep (x # y # ys) = x @ sep @ join sep (y # ys)"

definition repeat :: "string \<Rightarrow> nat \<Rightarrow> string" where
  "repeat s n = concat (replicate n s)"

text \<open>
  \<^verbatim>\<open>s.replace(/c/g, r)\<close> for a pattern that is one character and a replacement without
  \<^verbatim>\<open>$\<close>: every occurrence of the character becomes \<open>r\<close>.
\<close>

definition replaceAll :: "char \<Rightarrow> string \<Rightarrow> string \<Rightarrow> string" where
  "replaceAll c r s = concat (map (\<lambda>x. if x = c then r else [x]) s)"

definition isDigit :: "char \<Rightarrow> bool" where
  "isDigit c = (c \<in> set ''0123456789'')"

definition isIdentStart :: "char \<Rightarrow> bool" where
  "isIdentStart c = (c \<in> set ''abcdefghijklmnopqrstuvwxyz'' \<or> c \<in> set ''ABCDEFGHIJKLMNOPQRSTUVWXYZ''
                     \<or> c = CHR ''_'' \<or> c = CHR ''$'')"

definition isIdentPart :: "char \<Rightarrow> bool" where
  "isIdentPart c = (isIdentStart c \<or> isDigit c)"

text \<open>The test \<^verbatim>\<open>/^[a-zA-Z_$][a-zA-Z0-9_$]*$/.test(key)\<close> of \<^verbatim>\<open>toJson\<close>.\<close>

definition isIdentifier :: "string \<Rightarrow> bool" where
  "isIdentifier k = (case k of [] \<Rightarrow> False | c # cs \<Rightarrow> isIdentStart c \<and> list_all isIdentPart cs)"

section \<open>The value tree\<close>

text \<open>
  The values that both parsers build and both serializers render. Numbers are
  double-precision floats of the platform; the library never computes with them, it
  only hands them to \<^verbatim>\<open>Number.prototype.toString\<close> and gets them from
  \<^verbatim>\<open>parseFloat\<close>, so the number type is a parameter \<open>'n\<close> and the two platform
  functions are parameters of the serializers and of the parsers.
  An object is the list of its own enumerable properties in the order of
  \<^verbatim>\<open>Object.keys\<close>.
\<close>

datatype 'n "value" =
    VNull
  | VBool bool
  | VNum 'n
  | VStr string
  | VArr "'n value list"
  | VObj "(string \<times> 'n value) list"

text \<open>
  \<^verbatim>\<open>typeof val === 'string' || typeof val === 'number' || typeof val === 'boolean' || val === null\<close>
\<close>

fun isScalar :: "'n value \<Rightarrow> bool" where
  "isScalar VNull = True"
| "isScalar (VBool b) = True"
| "isScalar (VNum n) = True"
| "isScalar (VStr s) = True"
| "isScalar (VArr xs) = False"
| "isScalar (VObj ps) = False"

section \<open>The serializers\<close>

text \<open>The five replacements that both serializers apply to a string, in the source's order.\<close>

definition escapeString :: "string \<Rightarrow> string" where
  "escapeString s =
     replaceAll TAB [BSL, CHR ''t'']
       (replaceAll CR [BSL, CHR ''r'']
         (replaceAll LF [BSL, CHR ''n'']
           (replaceAll DQ [BSL, DQ]
             (replaceAll BSL [BSL, BSL] s))))"

definition quoted :: "string \<Rightarrow> string" where
  "quoted s = [DQ] @ s @ [DQ]"

text \<open>
  The test \<^verbatim>\<open>isCompactArray\<close> of \<^verbatim>\<open>toToon\<close>: every item is an object that is not null
  and not an array, has at most 5 keys, and has only scalar values.
\<close>

fun isCompactItem :: "'n value \<Rightarrow> bool" where
  "isCompactItem (VObj ps) = (length ps \<le> 5 \<and> list_all (\<lambda>(k, v). isScalar v) ps)"
| "isCompactItem _ = False"

definition isCompactArray :: "'n value list \<Rightarrow> bool" where
  "isCompactArray items = list_all isCompactItem items"

text \<open>
  The test \<^verbatim>\<open>isCompactObject\<close> of \<^verbatim>\<open>toToon\<close>: at most 5 keys, each value a scalar
  or an array of at most 10 items.
\<close>

fun isCompactValue :: "'n value \<Rightarrow> bool" where
  "isCompactValue (VArr xs) = (length xs \<le> 10)"
| "isCompactValue v = isScalar v"

definition isCompactObject :: "(string \<times> 'n value) list \<Rightarrow> bool" where
  "isCompactObject ps = (length ps \<le> 5 \<and> list_all (\<lambda>(k, v). isCompactValue v) ps)"

text \<open>
  \<^verbatim>\<open>toToon(obj, indent)\<close>. The first argument is the platform's
  \<^verbatim>\<open>Number.prototype.toString\<close>. The final \<^verbatim>\<open>throw\<close> of the source is for values
  that are none of null, boolean, number, string, array and object; the type \<open>value\<close> has
  no such value. \<^verbatim>\<open>Object.keys(item)\<close> is only reached for an item that is an object.
\<close>

function toToon :: "('n \<Rightarrow> string) \<Rightarrow> 'n value \<Rightarrow> nat \<Rightarrow> string" where
  "toToon ts VNull indent = ''null''"
| "toToon ts (VBool b) indent = (if b then ''true'' else ''false'')"
| "toToon ts (VNum n) indent = ts n"
| "toToon ts (VStr s) indent = quoted (escapeString s)"
| "toToon ts (VArr items) indent =
     (let indentStr = repeat ''  '' indent;
          nextIndent = indent + 1;
          nextIndentStr = repeat ''  '' nextIndent
      in if length items = 0 then ''[]''
         else if isCompactArray items then
           (let rendered = map (\<lambda>item.
                  (let pairs = map (\<lambda>(key, val).
                         (let keyStr = quoted key;
                              valueStr = toToon ts val 0
                          in keyStr @ '': '' @ valueStr))
                       (case item of VObj ps \<Rightarrow> ps | _ \<Rightarrow> [])
                   in ''{ '' @ join '', '' pairs @ '' }'')) items
            in ''['' @ [LF] @ nextIndentStr @ join ('','' @ [LF] @ nextIndentStr) rendered
                 @ [LF] @ indentStr @ '']'')
         else
           (let rendered = map (\<lambda>item. nextIndentStr @ toToon ts item nextIndent) items
            in ''['' @ [LF] @ join ('','' @ [LF]) rendered @ [LF] @ indentStr @ '']''))"
| "toToon ts (VObj props) indent =
     (let indentStr = repeat ''  '' indent;
          nextIndent = indent + 1;
          nextIndentStr = repeat ''  '' nextIndent
      in if length props = 0 then ''{}''
         else if isCompactObject props \<and> indent = 0 then
           (let pairs = map (\<lambda>(key, val).
                  (let keyStr = quoted key
                   in case val of
                        VArr xs \<Rightarrow>
                          if length xs > 0 then
                            (let rendered = map (\<lambda>item.
                                   (case item of
                                      VObj ips \<Rightarrow>
                                        (let itemPairs = map (\<lambda>(k, v).
                                               (let kStr = quoted k;
                                                    vStr = toToon ts v 0
                                                in kStr @ '': '' @ vStr)) ips
                                         in ''{ '' @ join '', '' itemPairs @ '' }'')
                                    | _ \<Rightarrow> toToon ts item 0)) xs
                             in keyStr @ '': ['' @ [LF] @ nextIndentStr
                                  @ join ('','' @ [LF] @ nextIndentStr) rendered
                                  @ [LF] @ indentStr @ '']'')
                          else keyStr @ '': '' @ toToon ts val 0
                      | _ \<Rightarrow> keyStr @ '': '' @ toToon ts val 0)) props
            in ''{'' @ [LF] @ nextIndentStr @ join ('','' @ [LF] @ nextIndentStr) pairs
                 @ [LF] @ indentStr @ ''}'')
         else
           (let pairs = map (\<lambda>(key, val).
                  (let keyStr = quoted key;
                       valueStr = toToon ts val nextIndent
                   in nextIndentStr @ keyStr @ '': '' @ valueStr)) props
            in ''{'' @ [LF] @ join ('','' @ [LF]) pairs @ [LF] @ indentStr @ ''}''))"
  by pat_completeness auto

lemma size_value_mem: "v \<in> set xs \<Longrightarrow> size (v::'n value) < size_list size xs"
  by (induction xs) auto

lemma size_prop_mem:
  "(k, v) \<in> set ps \<Longrightarrow> size (v::'n value) < size_list (size_prod (\<lambda>x. 0) size) ps"
  by (induction ps) auto

termination toToon
  apply (relation "measure (\<lambda>(ts, v, i). size v)")
   apply simp
  apply (auto dest!: size_value_mem size_prop_mem)
  done

text \<open>
  \<^verbatim>\<open>toJson(obj, indent)\<close>. A key that is an identifier is written as it is, any other
  key through \<^verbatim>\<open>toJson(key, 0)\<close>, the rendering of the key as a string value.
\<close>

function toJson :: "('n \<Rightarrow> string) \<Rightarrow> 'n value \<Rightarrow> nat \<Rightarrow> string" where
  "toJson ts VNull indent = ''null''"
| "toJson ts (VBool b) indent = (if b then ''true'' else ''false'')"
| "toJson ts (VNum n) indent = ts n"
| "toJson ts (VStr s) indent = quoted (escapeString s)"
| "toJson ts (VArr items) indent =
     (let indentStr = repeat ''  '' indent;
          nextIndent = indent + 1;
          nextIndentStr = repeat ''  '' nextIndent
      in if length items = 0 then ''[]''
         else
           (let rendered = map (\<lambda>item. nextIndentStr @ toJson ts item nextIndent) items
            in ''['' @ [LF] @ join ('','' @ [LF]) rendered @ [LF] @ indentStr @ '']''))"
| "toJson ts (VObj props) indent =
     (let indentStr = repeat ''  '' indent;
          nextIndent = indent + 1;
          nextIndentStr = repeat ''  '' nextIndent
      in if length props = 0 then ''{}''
         else
           (let pairs = map (\<lambda>(key, val).
                  (let keyStr = (if isIdentifier key then key else toJson ts (VStr key) 0);
                       valueStr = toJson ts val nextIndent
                   in nextIndentStr @ keyStr @ '': '' @ valueStr)) props
            in ''{'' @ [LF] @ join ('','' @ [LF]) pairs @ [LF] @ indentStr @ ''}''))"
  by pat_completeness auto

termination toJson
  apply (relation "measure (\<lambda>(ts, v, i). size v)")
     apply simp
    apply (auto dest!: size_value_mem size_prop_mem)
  done

section \<open>Numbers in examples\<close>

text \<open>
  For the examples the number type is \<open>int\<close>. \<open>showInt\<close> is what
  \<^verbatim>\<open>Number.prototype.toString\<close> gives for an integer below \<open>10^21\<close> in absolute value: its
  decimal digits, with a minus sign when it is negative. \<open>readInt\<close> is what \<^verbatim>\<open>parseFloat\<close>
  gives for a literal made of an optional minus sign and decimal digits.
\<close>

definition digitChar :: "nat \<Rightarrow> char" where
  "digitChar d = ''0123456789'' ! (d mod 10)"

fun showNat :: "nat \<Rightarrow> string" where
  "showNat n = (if n < 10 then [digitChar n] else showNat (n div 10) @ [digitChar (n mod 10)])"

definition showInt :: "int \<Rightarrow> string" where
  "showInt i = (if i < 0 then CHR ''-'' # showNat (nat (- i)) else showNat (nat i))"

definition digitVal :: "char \<Rightarrow> nat" where
  "digitVal c = of_char c - 48"

definition readNat :: "string \<Rightarrow> nat" where
  "readNat s = foldl (\<lambda>acc c. 10 * acc + digitVal c) 0 (takeWhile isDigit s)"

definition readInt :: "string \<Rightarrow> int" where
  "readInt s = (case s of
                  [] \<Rightarrow> 0
                | c # cs \<Rightarrow> if c = CHR ''-'' then - int (readNat cs) else int (readNat s))"

section \<open>Errors\<close>

text \<open>
  Every \<^verbatim>\<open>throw new Error(...)\<close> of the relaxed parser is a constructor; the argument is
  the snippet of the input that the message quotes. \<open>FuelExhausted\<close> is not an error of
  the source: it is the result of the model when its recursion bound is used up (see
  \<open>parseJson\<close>). \<open>InvalidToon\<close> is the error of \<^verbatim>\<open>parseToon\<close>.
\<close>

datatype jsonError = JsonSyntaxError | JsonCodeUnitAbove255 | JsonFuelExhausted

datatype error =
    EmptyInput
  | UnexpectedToken string
  | UnexpectedCharacters string
  | ExpectedObjectStart
  | ExpectedKey string
  | ExpectedColon string
  | ExpectedCommaOrBrace string
  | ExpectedArrayStart
  | ExpectedCommaOrBracket string
  | ExpectedQuote
  | UnterminatedString
  | ExpectedNumber
  | InvalidToon jsonError
  | FuelExhausted

section \<open>Own properties of a JavaScript object\<close>

text \<open>
  \<^verbatim>\<open>Object.keys\<close> lists the own properties of an ordinary object with the array indices
  first, in ascending numeric order, and then the other string keys in the order in
  which they were created. An array index is the canonical decimal form of an integer
  from 0 to \<open>2^32 - 2\<close>. \<open>defineOwn\<close> creates or overwrites an own data property and keeps
  the list in that order.
\<close>

definition decimalValue :: "string \<Rightarrow> int" where
  "decimalValue s = foldl (\<lambda>acc c. 10 * acc + int (digitVal c)) 0 s"

definition isArrayIndex :: "string \<Rightarrow> bool" where
  "isArrayIndex k = (k \<noteq> [] \<and> list_all isDigit k \<and> (k = ''0'' \<or> hd k \<noteq> CHR ''0'')
                     \<and> decimalValue k < 4294967295)"

fun overwrite :: "string \<Rightarrow> 'a \<Rightarrow> (string \<times> 'a) list \<Rightarrow> (string \<times> 'a) list" where
  "overwrite k v [] = []"
| "overwrite k v ((k', v') # ps) =
     (if k' = k then (k', v) # ps else (k', v') # overwrite k v ps)"

fun insertIndex :: "string \<Rightarrow> 'a \<Rightarrow> (string \<times> 'a) list \<Rightarrow> (string \<times> 'a) list" where
  "insertIndex k v [] = [(k, v)]"
| "insertIndex k v ((k', v') # ps) =
     (if isArrayIndex k' \<and> decimalValue k' < decimalValue k then (k', v') # insertIndex k v ps
      else (k, v) # (k', v') # ps)"

definition defineOwn :: "(string \<times> 'a) list \<Rightarrow> string \<Rightarrow> 'a \<Rightarrow> (string \<times> 'a) list" where
  "defineOwn props k v =
     (if k \<in> set (map fst props) then overwrite k v props
      else if isArrayIndex k then insertIndex k v props
      else props @ [(k, v)])"

text \<open>
  The assignment \<^verbatim>\<open>obj[key] = value\<close> of \<^verbatim>\<open>parseObject\<close>, on an object that was
  created by \<^verbatim>\<open>{}\<close>. For every key but \<^verbatim>\<open>__proto__\<close> it creates or overwrites an own
  property. \<^verbatim>\<open>__proto__\<close> is an accessor property of \<^verbatim>\<open>Object.prototype\<close>: while
  the object inherits it, the assignment calls its setter, which creates no own
  property; it replaces the prototype of the object when the value is an object, an
  array or null, and does nothing for any other value. The flag beside the properties
  says whether a lookup of \<^verbatim>\<open>__proto__\<close> on the object still reaches that accessor:
  it does for a new object and for an array, it does not once the prototype is null,
  and an object whose prototype is another parsed object inherits the flag of that
  object. Without the accessor the assignment creates an own property as for any
  other key.
\<close>

type_synonym 'n jsobject = "(string \<times> 'n value) list \<times> bool"

definition objSet :: "'n jsobject \<Rightarrow> string \<Rightarrow> 'n value \<times> bool \<Rightarrow> 'n jsobject" where
  "objSet obj key val =
     (case obj of (props, linked) \<Rightarrow>
        case val of (v, vlinked) \<Rightarrow>
          if key = ''__proto__'' \<and> linked then
            (case v of
               VObj ps \<Rightarrow> (props, vlinked)
             | VArr xs \<Rightarrow> (props, True)
             | VNull \<Rightarrow> (props, False)
             | _ \<Rightarrow> (props, linked))
          else (defineOwn props key v, linked))"

section \<open>The relaxed parser\<close>

text \<open>
  The match of \<^verbatim>\<open>/^(-?\d+(\.\d+)?([eE][+-]?\d+)?)/\<close>: the text of the match, if there is
  one. Every part is greedy and nothing follows the optional groups, so the match is an
  optional minus sign, the longest run of digits, a fraction when a dot and a digit
  follow, and an exponent when \<^verbatim>\<open>e\<close> or \<^verbatim>\<open>E\<close>, an optional sign and a digit follow.
\<close>

definition matchFraction :: "string \<Rightarrow> string" where
  "matchFraction s =
     (case s of
        [] \<Rightarrow> []
      | c # r \<Rightarrow> if c = CHR ''.'' \<and> takeWhile isDigit r \<noteq> [] then c # takeWhile isDigit r else [])"

definition matchExponent :: "string \<Rightarrow> string" where
  "matchExponent s =
     (case s of
        [] \<Rightarrow> []
      | c # r \<Rightarrow>
          if c = CHR ''e'' \<or> c = CHR ''E'' then
            (let sign = (case r of
                           [] \<Rightarrow> []
                         | d # r' \<Rightarrow> if d = CHR ''+'' \<or> d = CHR ''-'' then [d] else []);
                 digits = takeWhile isDigit (drop (length sign) r)
             in if digits = [] then [] else c # sign @ digits)
          else [])"

definition matchNumber :: "string \<Rightarrow> string option" where
  "matchNumber s =
     (let sign = (if startsWith s ''-'' then ''-'' else []);
          s1 = drop (length sign) s;
          digits = takeWhile isDigit s1
      in if digits = [] then None
         else
           (let s2 = drop (length digits) s1;
                fraction = matchFraction s2;
                exponent = matchExponent (drop (length fraction) s2)
            in Some (sign @ digits @ fraction @ exponent)))"

text \<open>
  The match of \<^verbatim>\<open>/^([a-zA-Z_$][a-zA-Z0-9_$]*)\s*:/\<close>: the key (group 1) and the length of
  the whole match.
\<close>

definition matchKey :: "string \<Rightarrow> (string \<times> nat) option" where
  "matchKey s =
     (case s of
        [] \<Rightarrow> None
      | c # cs \<Rightarrow>
          if \<not> isIdentStart c then None
          else
            (let key = c # takeWhile isIdentPart cs;
                 rest = dropWhile isIdentPart cs;
                 spaces = takeWhile isSpace rest
             in case dropWhile isSpace rest of
                  [] \<Rightarrow> None
                | d # r \<Rightarrow> if d = CHR '':'' then Some (key, length key + length spaces + 1)
                           else None))"

text \<open>
  \<^verbatim>\<open>parseString\<close>: the loop over \<^verbatim>\<open>i\<close> is a recursion over the characters from index
  1 on, with the variables \<^verbatim>\<open>value\<close> and \<^verbatim>\<open>escaped\<close> of the source.
\<close>

fun parseStringLoop :: "char \<Rightarrow> string \<Rightarrow> bool \<Rightarrow> string \<Rightarrow> error + (string \<times> string)" where
  "parseStringLoop quote val escaped [] = Inl UnterminatedString"
| "parseStringLoop quote val escaped (char # rest) =
     (if escaped then
        parseStringLoop quote
          (if char = CHR ''n'' then val @ [LF]
           else if char = CHR ''t'' then val @ [TAB]
           else if char = CHR ''r'' then val @ [CR]
           else if char = BSL then val @ [BSL]
           else if char = quote then val @ [quote]
           else val @ [char])
          False rest
      else if char = BSL then parseStringLoop quote val True rest
      else if char = quote then Inr (val, rest)
      else parseStringLoop quote (val @ [char]) False rest)"

definition parseString :: "string \<Rightarrow> error + (string \<times> string)" where
  "parseString input =
     (case input of
        [] \<Rightarrow> Inl ExpectedQuote
      | quote # rest \<Rightarrow>
          if quote \<noteq> DQ \<and> quote \<noteq> SQ then Inl ExpectedQuote
          else parseStringLoop quote [] False rest)"

text \<open>
  A \<^verbatim>\<open>ParseResult\<close> is the value, the remaining input and, for the assignment of
  \<^verbatim>\<open>__proto__\<close>, the flag of \<open>objSet\<close> for the value.
  \<^verbatim>\<open>parseNumber\<close> takes the platform's \<^verbatim>\<open>parseFloat\<close> as its first argument.
\<close>

type_synonym 'n ParseResult = "'n value \<times> bool \<times> string"

definition parseNumber :: "(string \<Rightarrow> 'n) \<Rightarrow> string \<Rightarrow> error + 'n ParseResult" where
  "parseNumber pf input =
     (case matchNumber input of
        None \<Rightarrow> Inl ExpectedNumber
      | Some numStr \<Rightarrow> Inr (VNum (pf numStr), True, substring input (length numStr)))"

text \<open>
  The part of the loop of \<^verbatim>\<open>parseObject\<close> that reads a key and the colon after it: it
  gives the key and the remaining input after the colon, trimmed.
\<close>

definition parseKey :: "string \<Rightarrow> error + (string \<times> string)" where
  "parseKey remaining =
     (if startsWith remaining [DQ] \<or> startsWith remaining [SQ] then
        (case parseString remaining of
           Inl e \<Rightarrow> Inl e
         | Inr (key, r) \<Rightarrow>
             (let remaining = trim r
              in if \<not> startsWith remaining '':'' then Inl (ExpectedColon (take 30 remaining))
                 else Inr (key, trim (substring remaining 1))))
      else
        (case matchKey remaining of
           None \<Rightarrow> Inl (ExpectedKey (take 30 remaining))
         | Some (key, len) \<Rightarrow> Inr (key, trim (substring remaining len))))"

text \<open>
  \<^verbatim>\<open>parseValue\<close>, \<^verbatim>\<open>parseObject\<close> and \<^verbatim>\<open>parseArray\<close> call each other; the two
  \<^verbatim>\<open>while (true)\<close> loops are \<open>parseObjectLoop\<close> and \<open>parseArrayLoop\<close>. The recursion
  of the source follows the input, so the model carries a bound: \<open>parseValue pf n\<close>
  allows \<open>n\<close> nested calls of \<^verbatim>\<open>parseValue\<close>, and a loop that starts with the bound
  \<open>n\<close> allows \<open>n\<close> turns. \<open>parseObject\<close>, \<open>parseArray\<close> and the loops take as \<open>pv\<close> the
  function they call for \<^verbatim>\<open>parseValue(remaining)\<close>, which is \<open>parseValue pf n\<close> for the
  next smaller bound.
\<close>

primrec parseObjectLoop ::
  "(string \<Rightarrow> error + 'n ParseResult) \<Rightarrow> nat \<Rightarrow> 'n jsobject \<Rightarrow> string
     \<Rightarrow> error + 'n ParseResult" where
  "parseObjectLoop pv 0 obj remaining0 = Inl FuelExhausted"
| "parseObjectLoop pv (Suc n) obj remaining0 =
     (let remaining = trim remaining0
      in if remaining = [] then Inr (VObj (fst obj), snd obj, remaining)
         else
           (case parseKey remaining of
              Inl e \<Rightarrow> Inl e
            | Inr (key, remaining) \<Rightarrow>
                (case pv remaining of
                   Inl e \<Rightarrow> Inl e
                 | Inr (v, vlinked, r) \<Rightarrow>
                     (let obj = objSet obj key (v, vlinked);
                          remaining = trim r
                      in if startsWith remaining ''}'' then
                           Inr (VObj (fst obj), snd obj, substring remaining 1)
                         else if startsWith remaining '','' then
                           parseObjectLoop pv n obj (trim (substring remaining 1))
                         else if length remaining > 0 then
                           Inl (ExpectedCommaOrBrace (take 30 remaining))
                         else Inr (VObj (fst obj), snd obj, remaining)))))"

definition parseObject ::
  "(string \<Rightarrow> error + 'n ParseResult) \<Rightarrow> nat \<Rightarrow> string \<Rightarrow> error + 'n ParseResult" where
  "parseObject pv n input =
     (if \<not> startsWith input ''{'' then Inl ExpectedObjectStart
      else
        (let remaining = trim (substring input 1)
         in if startsWith remaining ''}'' then Inr (VObj [], True, substring remaining 1)
            else parseObjectLoop pv n ([], True) remaining))"

primrec parseArrayLoop ::
  "(string \<Rightarrow> error + 'n ParseResult) \<Rightarrow> nat \<Rightarrow> 'n value list \<Rightarrow> string
     \<Rightarrow> error + 'n ParseResult" where
  "parseArrayLoop pv 0 arr remaining0 = Inl FuelExhausted"
| "parseArrayLoop pv (Suc n) arr remaining0 =
     (let remaining = trim remaining0
      in case pv remaining of
           Inl e \<Rightarrow> Inl e
         | Inr (v, vlinked, r) \<Rightarrow>
             (let arr = arr @ [v];
                  remaining = trim r
              in if startsWith remaining '']'' then Inr (VArr arr, True, substring remaining 1)
                 else if startsWith remaining '','' then
                   parseArrayLoop pv n arr (trim (substring remaining 1))
                 else Inl (ExpectedCommaOrBracket (take 20 remaining))))"

definition parseArray ::
  "(string \<Rightarrow> error + 'n ParseResult) \<Rightarrow> nat \<Rightarrow> string \<Rightarrow> error + 'n ParseResult" where
  "parseArray pv n input =
     (if \<not> startsWith input ''['' then Inl ExpectedArrayStart
      else
        (let remaining = trim (substring input 1)
         in if startsWith remaining '']'' then Inr (VArr [], True, substring remaining 1)
            else parseArrayLoop pv n [] remaining))"

primrec parseValue :: "(string \<Rightarrow> 'n) \<Rightarrow> nat \<Rightarrow> string \<Rightarrow> error + 'n ParseResult" where
  "parseValue pf 0 input = Inl FuelExhausted"
| "parseValue pf (Suc n) input =
     (let trimmed = trim input
      in if startsWith trimmed ''{'' then parseObject (parseValue pf n) n trimmed
         else if startsWith trimmed ''['' then parseArray (parseValue pf n) n trimmed
         else if startsWith trimmed [DQ] \<or> startsWith trimmed [SQ] then
           (case parseString trimmed of
              Inl e \<Rightarrow> Inl e
            | Inr (s, r) \<Rightarrow> Inr (VStr s, True, r))
         else if matchNumber trimmed \<noteq> None then parseNumber pf trimmed
         else if startsWith trimmed ''true'' then Inr (VBool True, True, substring trimmed 4)
         else if startsWith trimmed ''false'' then Inr (VBool False, True, substring trimmed 5)
         else if startsWith trimmed ''null'' then Inr (VNull, True, substring trimmed 4)
         else Inl (UnexpectedToken (take 20 trimmed)))"

text \<open>
  \<^verbatim>\<open>parseJson\<close>. The bound \<open>Suc (length trimmed)\<close> is never used up
  (\<open>parseJson_fuel\<close> below), so the model returns what the source returns.
\<close>

definition parseJson :: "(string \<Rightarrow> 'n) \<Rightarrow> string \<Rightarrow> error + 'n value" where
  "parseJson pf input =
     (let trimmed = trim input
      in if trimmed = [] then Inl EmptyInput
         else
           (case parseValue pf (Suc (length trimmed)) trimmed of
              Inl e \<Rightarrow> Inl e
            | Inr (v, linked, remaining) \<Rightarrow>
                if trim remaining \<noteq> [] then Inl (UnexpectedCharacters (take 20 remaining))
                else Inr v))"

section \<open>The strict parser\<close>

text \<open>
  \<^verbatim>\<open>parseToon\<close> calls the platform's \<^verbatim>\<open>JSON.parse\<close>. \<open>JSON_parse\<close> is a parser for the
  JSON grammar of ECMA-404 as \<^verbatim>\<open>JSON.parse\<close> reads it: white space is tab, line feed,
  carriage return and space; a string is in double quotes, has no code unit below
  0x20 and has the escapes \<^verbatim>\<open>\" \\ \/ \b \f \n \r \t\<close> and \<^verbatim>\<open>\uXXXX\<close>; a number has no
  leading zero; a property is created as an own data property, also for the key
  \<^verbatim>\<open>__proto__\<close>. Any violation is \<open>JsonSyntaxError\<close>. A \<^verbatim>\<open>\uXXXX\<close> escape of a code unit above
  255, which \<open>char\<close> cannot hold, is reported as \<open>JsonCodeUnitAbove255\<close>: this is not an
  outcome of \<^verbatim>\<open>JSON.parse\<close>, which returns the string with that code unit, it marks a
  text that the model does not cover. The number of a literal is the one that
  \<^verbatim>\<open>parseFloat\<close> gives for it.
\<close>

definition isJsonSpace :: "char \<Rightarrow> bool" where
  "isJsonSpace c = (c = TAB \<or> c = LF \<or> c = CR \<or> c = CHR 0x20)"

definition skipJsonSpace :: "string \<Rightarrow> string" where
  "skipJsonSpace s = dropWhile isJsonSpace s"

definition isHexDigit :: "char \<Rightarrow> bool" where
  "isHexDigit c = (isDigit c \<or> c \<in> set ''abcdef'' \<or> c \<in> set ''ABCDEF'')"

definition hexDigitVal :: "char \<Rightarrow> nat" where
  "hexDigitVal c = (if isDigit c then of_char c - 48
                    else if c \<in> set ''abcdef'' then of_char c - 87
                    else of_char c - 55)"

definition hexValue :: "string \<Rightarrow> nat" where
  "hexValue s = foldl (\<lambda>acc c. 16 * acc + hexDigitVal c) 0 s"

text \<open>The characters of a JSON string after the opening quote.\<close>

fun jsonStringChars :: "string \<Rightarrow> string \<Rightarrow> jsonError + (string \<times> string)" where
  "jsonStringChars acc [] = Inl JsonSyntaxError"
| "jsonStringChars acc (c # rest) =
     (if c = DQ then Inr (acc, rest)
      else if c = BSL then
        (case rest of
           [] \<Rightarrow> Inl JsonSyntaxError
         | e # rest' \<Rightarrow>
             if e = DQ then jsonStringChars (acc @ [DQ]) rest'
             else if e = BSL then jsonStringChars (acc @ [BSL]) rest'
             else if e = CHR ''/'' then jsonStringChars (acc @ ''/'') rest'
             else if e = CHR ''b'' then jsonStringChars (acc @ [CHR 0x08]) rest'
             else if e = CHR ''f'' then jsonStringChars (acc @ [CHR 0x0C]) rest'
             else if e = CHR ''n'' then jsonStringChars (acc @ [LF]) rest'
             else if e = CHR ''r'' then jsonStringChars (acc @ [CR]) rest'
             else if e = CHR ''t'' then jsonStringChars (acc @ [TAB]) rest'
             else if e = CHR ''u'' then
               (if length rest' \<ge> 4 \<and> list_all isHexDigit (take 4 rest') then
                  (if hexValue (take 4 rest') < 256 then
                     jsonStringChars (acc @ [char_of (hexValue (take 4 rest'))]) (drop 4 rest')
                   else Inl JsonCodeUnitAbove255)
                else Inl JsonSyntaxError)
             else Inl JsonSyntaxError)
      else if of_char c < (32::nat) then Inl JsonSyntaxError
      else jsonStringChars (acc @ [c]) rest)"

text \<open>The text of a JSON number at the start of the input, if there is one.\<close>

definition jsonNumber :: "string \<Rightarrow> string option" where
  "jsonNumber s =
     (let sign = (if startsWith s ''-'' then ''-'' else []);
          s1 = drop (length sign) s
      in case s1 of
           [] \<Rightarrow> None
         | c # r \<Rightarrow>
             if \<not> isDigit c then None
             else
               (let digits = (if c = CHR ''0'' then [c] else c # takeWhile isDigit r);
                    s2 = drop (length digits) s1;
                    fraction = matchFraction s2;
                    exponent = matchExponent (drop (length fraction) s2)
                in Some (sign @ digits @ fraction @ exponent)))"

text \<open>
  The members of an object and the elements of an array, from the first one on; \<open>jv\<close>
  is the parser for a value, which skips the white space before it. The bounds are as
  in the relaxed parser.
\<close>

primrec jsonMembers ::
  "(string \<Rightarrow> jsonError + ('n value \<times> string)) \<Rightarrow> nat \<Rightarrow> (string \<times> 'n value) list \<Rightarrow> string
     \<Rightarrow> jsonError + ('n value \<times> string)" where
  "jsonMembers jv 0 props s = Inl JsonFuelExhausted"
| "jsonMembers jv (Suc n) props s =
     (case s of
        [] \<Rightarrow> Inl JsonSyntaxError
      | c # r \<Rightarrow>
          if c \<noteq> DQ then Inl JsonSyntaxError
          else
            (case jsonStringChars [] r of
               Inl e \<Rightarrow> Inl e
             | Inr (key, r1) \<Rightarrow>
                 (case skipJsonSpace r1 of
                    [] \<Rightarrow> Inl JsonSyntaxError
                  | d # r2 \<Rightarrow>
                      if d \<noteq> CHR '':'' then Inl JsonSyntaxError
                      else
                        (case jv r2 of
                           Inl e \<Rightarrow> Inl e
                         | Inr (v, r3) \<Rightarrow>
                             (case skipJsonSpace r3 of
                                [] \<Rightarrow> Inl JsonSyntaxError
                              | x # r4 \<Rightarrow>
                                  if x = CHR ''}'' then Inr (VObj (defineOwn props key v), r4)
                                  else if x = CHR '','' then
                                    jsonMembers jv n (defineOwn props key v) (skipJsonSpace r4)
                                  else Inl JsonSyntaxError)))))"

primrec jsonElements ::
  "(string \<Rightarrow> jsonError + ('n value \<times> string)) \<Rightarrow> nat \<Rightarrow> 'n value list \<Rightarrow> string
     \<Rightarrow> jsonError + ('n value \<times> string)" where
  "jsonElements jv 0 arr s = Inl JsonFuelExhausted"
| "jsonElements jv (Suc n) arr s =
     (case jv s of
        Inl e \<Rightarrow> Inl e
      | Inr (v, r) \<Rightarrow>
          (case skipJsonSpace r of
             [] \<Rightarrow> Inl JsonSyntaxError
           | x # r' \<Rightarrow>
               if x = CHR '']'' then Inr (VArr (arr @ [v]), r')
               else if x = CHR '','' then jsonElements jv n (arr @ [v]) r'
               else Inl JsonSyntaxError))"

primrec jsonValue :: "(string \<Rightarrow> 'n) \<Rightarrow> nat \<Rightarrow> string \<Rightarrow> jsonError + ('n value \<times> string)" where
  "jsonValue pf 0 s0 = Inl JsonFuelExhausted"
| "jsonValue pf (Suc n) s0 =
     (let s = skipJsonSpace s0
      in case s of
           [] \<Rightarrow> Inl JsonSyntaxError
         | c # r \<Rightarrow>
             if c = CHR ''{'' then
               (case skipJsonSpace r of
                  [] \<Rightarrow> Inl JsonSyntaxError
                | d # r' \<Rightarrow>
                    if d = CHR ''}'' then Inr (VObj [], r')
                    else jsonMembers (jsonValue pf n) n [] (d # r'))
             else if c = CHR ''['' then
               (case skipJsonSpace r of
                  [] \<Rightarrow> Inl JsonSyntaxError
                | d # r' \<Rightarrow>
                    if d = CHR '']'' then Inr (VArr [], r')
                    else jsonElements (jsonValue pf n) n [] (d # r'))
             else if c = DQ then
               (case jsonStringChars [] r of
                  Inl e \<Rightarrow> Inl e
                | Inr (str, r') \<Rightarrow> Inr (VStr str, r'))
             else if startsWith s ''true'' then Inr (VBool True, drop 4 s)
             else if startsWith s ''false'' then Inr (VBool False, drop 5 s)
             else if startsWith s ''null'' then Inr (VNull, drop 4 s)
             else
               (case jsonNumber s of
                  None \<Rightarrow> Inl JsonSyntaxError
                | Some numStr \<Rightarrow> Inr (VNum (pf numStr), drop (length numStr) s)))"

definition JSON_parse :: "(string \<Rightarrow> 'n) \<Rightarrow> string \<Rightarrow> jsonError + 'n value" where
  "JSON_parse pf text =
     (case jsonValue pf (Suc (length text)) text of
        Inl e \<Rightarrow> Inl e
      | Inr (v, r) \<Rightarrow> if skipJsonSpace r = [] then Inr v else Inl JsonSyntaxError)"

text \<open>\<^verbatim>\<open>parseToon\<close>: the result of \<^verbatim>\<open>JSON.parse\<close>, or its error wrapped.\<close>

definition parseToon :: "(string \<Rightarrow> 'n) \<Rightarrow> string \<Rightarrow> error + 'n value" where
  "parseToon pf input =
     (case JSON_parse pf input of
        Inl e \<Rightarrow> Inl (InvalidToon e)
      | Inr v \<Rightarrow> Inr v)"

section \<open>The JSON to TOON endpoint\<close>

text \<open>
  The message of each error, as the \<^verbatim>\<open>throw\<close> statements build it. The message of a
  \<^verbatim>\<open>JSON.parse\<close> error is the platform's and is left out after the prefix.
\<close>

fun message :: "error \<Rightarrow> string" where
  "message EmptyInput = ''Empty input''"
| "message (UnexpectedToken s) = ''Unexpected token: '' @ s"
| "message (UnexpectedCharacters s) = ''Unexpected characters after parsed value: '' @ s"
| "message ExpectedObjectStart = ''Expected object to start with {''"
| "message (ExpectedKey s) = ''Expected key, got: '' @ s"
| "message (ExpectedColon s) = ''Expected ':' after key, got: '' @ s"
| "message (ExpectedCommaOrBrace s) = ''Expected ',' or '}', got: '' @ s"
| "message ExpectedArrayStart = ''Expected array to start with [''"
| "message (ExpectedCommaOrBracket s) = ''Expected ',' or ']', got: '' @ s"
| "message ExpectedQuote = ''Expected string to start with quote''"
| "message UnterminatedString = ''Unterminated string''"
| "message ExpectedNumber = ''Expected number''"
| "message (InvalidToon e) = ''Invalid TOON format: ''"
| "message FuelExhausted = []"

text \<open>
  The handler of \<^verbatim>\<open>src/unnamed/part_001\<close>. A request is its method and the value of
  \<^verbatim>\<open>req.body.data\<close>, which is a string or something else; a response is its status and
  its body, \<^verbatim>\<open>{ data }\<close> or \<^verbatim>\<open>{ error }\<close>.
\<close>

datatype bodyData = NotAString | StringData string

datatype responseBody = DataBody string | ErrorBody string

definition handler ::
  "(string \<Rightarrow> 'n) \<Rightarrow> ('n \<Rightarrow> string) \<Rightarrow> string \<Rightarrow> bodyData \<Rightarrow> nat \<times> responseBody" where
  "handler pf ts method data =
     (if method \<noteq> ''POST'' then (405, ErrorBody ''Method not allowed'')
      else
        (case data of
           NotAString \<Rightarrow> (400, ErrorBody ''Invalid input: expected a string'')
         | StringData text \<Rightarrow>
             if text = [] then (400, ErrorBody ''Invalid input: expected a string'')
             else
               (case parseJson pf text of
                  Inl e \<Rightarrow>
                    (400, ErrorBody (if message e = [] then ''Invalid JSON format'' else message e))
                | Inr parsed \<Rightarrow> (200, DataBody (toToon ts parsed 0)))))"

section \<open>The single-line brace block\<close>

text \<open>
  The block that the specification describes for an element of a compact array:
  \<^verbatim>\<open>{ "k": v, "k2": v2 }\<close>, every key in double quotes, every value a scalar in its
  own text.
\<close>

fun propsOf :: "'n value \<Rightarrow> (string \<times> 'n value) list" where
  "propsOf (VObj ps) = ps"
| "propsOf _ = []"

fun scalarText :: "('n \<Rightarrow> string) \<Rightarrow> 'n value \<Rightarrow> string" where
  "scalarText ts VNull = ''null''"
| "scalarText ts (VBool b) = (if b then ''true'' else ''false'')"
| "scalarText ts (VNum n) = ts n"
| "scalarText ts (VStr s) = [DQ] @ escapeString s @ [DQ]"
| "scalarText ts _ = []"

definition braceBlock :: "('n \<Rightarrow> string) \<Rightarrow> 'n value \<Rightarrow> string" where
  "braceBlock ts item =
     ''{ '' @ join '', '' (map (\<lambda>(k, v). [DQ] @ k @ [DQ] @ '': '' @ scalarText ts v) (propsOf item)) @ '' }''"

section \<open>Trimming on the right\<close>

text \<open>\<^verbatim>\<open>trim\<close> removes the white space on the left and then the white space on the right.\<close>

definition rtrim :: "string \<Rightarrow> string" where
  "rtrim s = rev (dropWhile isSpace (rev s))"

section \<open>The order of the keys of a parsed object\<close>

text \<open>
  The keys of an object are ordered as \<^verbatim>\<open>Object.keys\<close> gives them when no key occurs
  twice, the array indices are in ascending numeric order, and no array index comes
  after another key. A value is well formed when the keys of every object in it are
  ordered so.
\<close>

fun ownKeysOrdered :: "string list \<Rightarrow> bool" where
  "ownKeysOrdered [] = True"
| "ownKeysOrdered (k # ks) =
     (k \<notin> set ks \<and> ownKeysOrdered ks
      \<and> (if isArrayIndex k then \<forall>k' \<in> set ks. isArrayIndex k' \<longrightarrow> decimalValue k < decimalValue k'
         else \<forall>k' \<in> set ks. \<not> isArrayIndex k'))"

fun wellFormed :: "'n value \<Rightarrow> bool" where
  "wellFormed (VArr xs) = (\<forall>v \<in> set xs. wellFormed v)"
| "wellFormed (VObj ps) = (ownKeysOrdered (map fst ps) \<and> (\<forall>v \<in> set (map snd ps). wellFormed v))"
| "wellFormed v = True"

section \<open>The bound of the relaxed parser\<close>

text \<open>
  A value parser stays within its bound on the inputs of length at most \<open>L\<close>: it does
  not report \<open>FuelExhausted\<close>, and what it leaves is shorter than what it got.
\<close>

definition consumes :: "(string \<Rightarrow> error + 'n ParseResult) \<Rightarrow> nat \<Rightarrow> bool" where
  "consumes pv L =
     (\<forall>s. length s \<le> L \<longrightarrow>
        pv s \<noteq> Inl FuelExhausted \<and> (\<forall>v l r. pv s = Inr (v, l, r) \<longrightarrow> length r < length s))"


section \<open>The forms of an array in the strict serializer\<close>

text \<open>
  The form that the specification describes for every non-empty array: one element per
  line, each element rendered by \<^verbatim>\<open>toToon\<close> at the next level behind the indentation of
  that level.
\<close>

definition linePerElement :: "('n \<Rightarrow> string) \<Rightarrow> 'n value list \<Rightarrow> nat \<Rightarrow> string" where
  "linePerElement ts items indent =
     ''['' @ [LF]
       @ join ('','' @ [LF]) (map (\<lambda>item. repeat ''  '' (indent + 1) @ toToon ts item (indent + 1)) items)
       @ [LF] @ repeat ''  '' indent @ '']''"

text \<open>
  The form of a non-empty array that is the value of an entry of an object rendered at
  level 0 through the branch \<^verbatim>\<open>isCompactObject && indent === 0\<close>: an element that is an
  object is a single-line block of its entries, each value rendered by \<^verbatim>\<open>toToon\<close> at
  level 0, and any other element is rendered by \<^verbatim>\<open>toToon\<close> at level 0. \<open>inlineEntry\<close>
  is the text of one entry of such an object.
\<close>

definition inlineItem :: "('n \<Rightarrow> string) \<Rightarrow> 'n value \<Rightarrow> string" where
  "inlineItem ts item =
     (case item of
        VObj ips \<Rightarrow> ''{ '' @ join '', '' (map (\<lambda>(k, v). [DQ] @ k @ [DQ] @ '': '' @ toToon ts v 0) ips) @ '' }''
      | _ \<Rightarrow> toToon ts item 0)"

definition inlineEntry :: "('n \<Rightarrow> string) \<Rightarrow> string \<times> 'n value \<Rightarrow> string" where
  "inlineEntry ts entry =
     (case entry of (k, v) \<Rightarrow>
        [DQ] @ k @ [DQ] @ '': '' @
          (case v of
             VArr xs \<Rightarrow>
               if xs = [] then ''[]''
               else ''['' @ [LF] @ ''  '' @ join ('','' @ [LF] @ ''  '') (map (inlineItem ts) xs) @ [LF] @ '']''
           | _ \<Rightarrow> toToon ts v 0))"

section \<open>A family of JSON texts\<close>

text \<open>
  The texts on which the two parsers are compared. A string literal is a list of
  pieces: a character that stands for itself, one of the two-character escapes of the
  JSON grammar, or a \<^verbatim>\<open>\uXXXX\<close> escape. \<open>pieceJson\<close> says that a piece is one of the
  JSON grammar, and \<open>pieceOk\<close> that, in addition, the code unit of a \<^verbatim>\<open>\uXXXX\<close> escape is
  below 256, so that a \<open>char\<close> holds it. \<open>strictChar\<close> is the code unit that \<^verbatim>\<open>JSON.parse\<close>
  reads from a piece, \<open>relaxedChars\<close> the characters that the loop of \<^verbatim>\<open>parseString\<close>
  reads from it.
\<close>

datatype piece = Plain char | Escape char | Unicode string

fun pieceText :: "piece \<Rightarrow> string" where
  "pieceText (Plain c) = [c]"
| "pieceText (Escape e) = [BSL, e]"
| "pieceText (Unicode h) = [BSL, CHR ''u''] @ h"

definition isPlain :: "char \<Rightarrow> bool" where
  "isPlain c = (c \<noteq> DQ \<and> c \<noteq> BSL \<and> (32::nat) \<le> of_char c)"

fun pieceJson :: "piece \<Rightarrow> bool" where
  "pieceJson (Plain c) = isPlain c"
| "pieceJson (Escape e) = (e = DQ \<or> e = BSL \<or> e \<in> set ''/bfnrt'')"
| "pieceJson (Unicode h) = (length h = 4 \<and> list_all isHexDigit h)"

fun pieceOk :: "piece \<Rightarrow> bool" where
  "pieceOk (Plain c) = isPlain c"
| "pieceOk (Escape e) = (e = DQ \<or> e = BSL \<or> e \<in> set ''/bfnrt'')"
| "pieceOk (Unicode h) = (length h = 4 \<and> list_all isHexDigit h \<and> hexValue h < 256)"

fun strictChar :: "piece \<Rightarrow> char" where
  "strictChar (Plain c) = c"
| "strictChar (Escape e) =
     (if e = CHR ''b'' then CHR 0x08
      else if e = CHR ''f'' then CHR 0x0C
      else if e = CHR ''n'' then LF
      else if e = CHR ''r'' then CR
      else if e = CHR ''t'' then TAB
      else e)"
| "strictChar (Unicode h) = char_of (hexValue h)"

fun relaxedChars :: "piece \<Rightarrow> string" where
  "relaxedChars (Plain c) = [c]"
| "relaxedChars (Escape e) =
     [if e = CHR ''n'' then LF
      else if e = CHR ''t'' then TAB
      else if e = CHR ''r'' then CR
      else e]"
| "relaxedChars (Unicode h) = CHR ''u'' # h"


definition literalText :: "piece list \<Rightarrow> string" where
  "literalText ps = [DQ] @ concat (map pieceText ps) @ [DQ]"

definition strictString :: "piece list \<Rightarrow> string" where
  "strictString ps = map strictChar ps"

definition relaxedString :: "piece list \<Rightarrow> string" where
  "relaxedString ps = concat (map relaxedChars ps)"

text \<open>
  A text of the family is \<^verbatim>\<open>null\<close>, \<^verbatim>\<open>true\<close>, \<^verbatim>\<open>false\<close>, a natural number in decimal
  digits without a leading zero, a string literal, an array or an object; the elements
  and the entries are separated by a comma and a space, a key is a string in double
  quotes without escapes, and a colon and a space follow it. \<open>docOk\<close> says that the
  numbers, the strings and the keys are so, and \<open>noProto\<close> that no key is
  \<^verbatim>\<open>__proto__\<close>.
\<close>

datatype doc =
    DNull
  | DBool bool
  | DNat string
  | DStr "piece list"
  | DArr "doc list"
  | DObj "(string \<times> doc) list"

definition entryText :: "string \<times> string \<Rightarrow> string" where
  "entryText e = (case e of (k, t) \<Rightarrow> [DQ] @ k @ [DQ] @ '': '' @ t)"

primrec docText :: "doc \<Rightarrow> string" where
  "docText DNull = ''null''"
| "docText (DBool b) = (if b then ''true'' else ''false'')"
| "docText (DNat d) = d"
| "docText (DStr ps) = literalText ps"
| "docText (DArr ds) = ''['' @ join '', '' (map docText ds) @ '']''"
| "docText (DObj es) = ''{'' @ join '', '' (map entryText (map (map_prod id docText) es)) @ ''}''"

definition isNatural :: "string \<Rightarrow> bool" where
  "isNatural d = (d \<noteq> [] \<and> list_all isDigit d \<and> (d = ''0'' \<or> hd d \<noteq> CHR ''0''))"

primrec docOk :: "doc \<Rightarrow> bool" where
  "docOk DNull = True"
| "docOk (DBool b) = True"
| "docOk (DNat d) = isNatural d"
| "docOk (DStr ps) = list_all pieceOk ps"
| "docOk (DArr ds) = list_all (\<lambda>ok. ok) (map docOk ds)"
| "docOk (DObj es) = list_all (\<lambda>(k, ok). list_all isPlain k \<and> ok) (map (map_prod id docOk) es)"

primrec noProto :: "doc \<Rightarrow> bool" where
  "noProto DNull = True"
| "noProto (DBool b) = True"
| "noProto (DNat d) = True"
| "noProto (DStr ps) = True"
| "noProto (DArr ds) = list_all (\<lambda>ok. ok) (map noProto ds)"
| "noProto (DObj es) = list_all (\<lambda>(k, ok). k \<noteq> ''__proto__'' \<and> ok) (map (map_prod id noProto) es)"

text \<open>
  The object that results from storing a list of entries one after the other, and the
  value of a text: \<open>dec\<close> is the way in which the strings are read, \<open>relaxedString\<close> or
  \<open>strictString\<close>, and an object is the result of storing its entries from left to
  right in the empty object.
\<close>

definition storeAll :: "(string \<times> 'a) list \<Rightarrow> (string \<times> 'a) list \<Rightarrow> (string \<times> 'a) list" where
  "storeAll props entries = foldl (\<lambda>ps (k, v). defineOwn ps k v) props entries"

primrec docValue :: "(piece list \<Rightarrow> string) \<Rightarrow> (string \<Rightarrow> 'n) \<Rightarrow> doc \<Rightarrow> 'n value" where
  "docValue dec pf DNull = VNull"
| "docValue dec pf (DBool b) = VBool b"
| "docValue dec pf (DNat d) = VNum (pf d)"
| "docValue dec pf (DStr ps) = VStr (dec ps)"
| "docValue dec pf (DArr ds) = VArr (map (docValue dec pf) ds)"
| "docValue dec pf (DObj es) = VObj (storeAll [] (map (map_prod id (docValue dec pf)) es))"

text \<open>
  The keys of a list in the order of their first occurrences.
\<close>

primrec firstOccurrences :: "string list \<Rightarrow> string list" where
  "firstOccurrences [] = []"
| "firstOccurrences (k # ks) = k # filter (\<lambda>x. x \<noteq> k) (firstOccurrences ks)"


text \<open>
  A text is solid when it is not empty and neither starts nor ends with white space.
  What may follow a value inside a text of the family: nothing, or a comma or a closing
  bracket and then anything that does not end with white space.
\<close>

definition solid :: "string \<Rightarrow> bool" where
  "solid s = (s \<noteq> [] \<and> \<not> isSpace (hd s) \<and> \<not> isSpace (last s))"

definition tailOk :: "string \<Rightarrow> bool" where
  "tailOk rs =
     (case rs of
        [] \<Rightarrow> True
      | c # r \<Rightarrow> (c = CHR '','' \<or> c = CHR ''}'' \<or> c = CHR '']'') \<and> \<not> isSpace (last rs))"

section \<open>Helper lemmas\<close>

lemma toToon_scalar: "isScalar v \<Longrightarrow> toToon ts v indent = scalarText ts v"
  by (cases v) (simp_all add: quoted_def)

lemma braceBlock_eq:
  assumes "isCompactItem item"
  shows "''{ '' @ join '', '' (map (\<lambda>(key, val). quoted key @ '': '' @ toToon ts val 0)
            (case item of VObj ps \<Rightarrow> ps | _ \<Rightarrow> [])) @ '' }'' = braceBlock ts item"
proof (cases item)
  case (VObj ps)
  with assms have scalar: "\<forall>(k, v) \<in> set ps. isScalar v"
    by (simp add: list_all_iff)
  have "map (\<lambda>(key, val). quoted key @ '': '' @ toToon ts val 0) ps
           = map (\<lambda>(k, v). [DQ] @ k @ [DQ] @ '': '' @ scalarText ts v) ps"
  proof (rule map_cong [OF refl])
    fix x assume "x \<in> set ps"
    with scalar show "(case x of (key, val) \<Rightarrow> quoted key @ '': '' @ toToon ts val 0)
                  = (case x of (k, v) \<Rightarrow> [DQ] @ k @ [DQ] @ '': '' @ scalarText ts v)"
      by (cases x) (auto simp: toToon_scalar quoted_def)
  qed
  then show ?thesis
    unfolding braceBlock_def VObj by (simp del: map_eq_conv)
qed (use assms in simp_all)

lemma dropWhile_id: "s \<noteq> [] \<Longrightarrow> \<not> P (hd s) \<Longrightarrow> dropWhile P s = s"
  by (cases s) auto

lemma trim_id: "s \<noteq> [] \<Longrightarrow> \<not> isSpace (hd s) \<Longrightarrow> \<not> isSpace (last s) \<Longrightarrow> trim s = s"
  by (simp add: trim_def dropWhile_id hd_rev)

lemma isHexDigit_plain: "isHexDigit c \<Longrightarrow> c \<noteq> BSL \<and> c \<noteq> DQ"
  by (auto simp: isHexDigit_def isDigit_def)

subsection \<open>The bound of the relaxed parser is never used up\<close>

lemma length_trim: "length (trim s) \<le> length s"
proof -
  have "length (dropWhile isSpace (rev (dropWhile isSpace s))) \<le> length (rev (dropWhile isSpace s))"
    by (rule length_dropWhile_le)
  also have "\<dots> \<le> length s"
    by (simp add: length_dropWhile_le)
  finally show ?thesis by (simp add: trim_def)
qed

lemma startsWith_Cons: "startsWith s [c] \<longleftrightarrow> (\<exists>r. s = c # r)"
  by (cases s) (auto simp: startsWith_def)

lemma startsWith_length: "startsWith s p \<Longrightarrow> length p \<le> length s"
  by (metis startsWith_def length_take min.cobounded2 min.commute)

lemma parseStringLoop_length:
  "parseStringLoop q val e s = Inr (v, r) \<Longrightarrow> length r \<le> length s"
proof (induction s arbitrary: val e)
  case Nil
  then show ?case by simp
next
  case (Cons c s)
  show ?case
  proof (cases "\<not> e \<and> c \<noteq> BSL \<and> c = q")
    case True
    with Cons.prems show ?thesis by auto
  next
    case False
    then obtain val' e' where "parseStringLoop q val' e' s = Inr (v, r)"
      using Cons.prems by (auto split: if_splits)
    then have "length r \<le> length s" by (rule Cons.IH)
    then show ?thesis by simp
  qed
qed

lemma parseStringLoop_fuel: "parseStringLoop q val e s \<noteq> Inl FuelExhausted"
  by (induction s arbitrary: val e) auto

lemma parseString_fuel: "parseString s \<noteq> Inl FuelExhausted"
  by (cases s) (auto simp: parseString_def parseStringLoop_fuel)

lemma parseKey_fuel: "parseKey s \<noteq> Inl FuelExhausted"
  using parseString_fuel [of s]
  by (auto simp: parseKey_def Let_def split: sum.splits option.splits)

lemma parseString_length: "parseString s = Inr (v, r) \<Longrightarrow> length r < length s"
  by (cases s) (auto simp: parseString_def less_Suc_eq_le dest: parseStringLoop_length split: if_splits)

lemma matchKey_length: "matchKey s = Some (k, len) \<Longrightarrow> 0 < len \<and> s \<noteq> []"
  by (cases s) (auto simp: matchKey_def Let_def split: if_splits list.splits)

lemma parseKey_length: "parseKey s = Inr (k, r) \<Longrightarrow> length r < length s"
proof (cases "startsWith s [DQ] \<or> startsWith s [SQ]")
  case True
  assume pk: "parseKey s = Inr (k, r)"
  with True obtain r0 where ps: "parseString s = Inr (k, r0)"
    and r: "r = trim (substring (trim r0) 1)"
    by (auto simp: parseKey_def Let_def split: sum.splits if_splits)
  have "length r \<le> length (trim r0)"
    unfolding r substring_def using length_trim [of "drop 1 (trim r0)"] by simp
  also have "\<dots> \<le> length r0" by (rule length_trim)
  also have "\<dots> < length s" using ps by (rule parseString_length)
  finally show ?thesis .
next
  case False
  assume pk: "parseKey s = Inr (k, r)"
  with False obtain len where mk: "matchKey s = Some (k, len)" and r: "r = trim (substring s len)"
    by (auto simp: parseKey_def split: option.splits)
  from mk have "0 < len" "s \<noteq> []" by (auto dest: matchKey_length)
  then have "length (drop len s) < length s" by (cases s) auto
  with length_trim [of "drop len s"] show ?thesis
    unfolding r substring_def by simp
qed

lemma matchNumber_nonempty: "matchNumber s = Some numStr \<Longrightarrow> numStr \<noteq> [] \<and> s \<noteq> []"
  by (cases s) (auto simp: matchNumber_def Let_def startsWith_def split: if_splits)

lemma parseNumber_length: "parseNumber pf s = Inr (v, l, r) \<Longrightarrow> length r < length s"
  by (cases s) (auto simp: parseNumber_def substring_def dest!: matchNumber_nonempty split: option.splits)

lemma parseObjectLoop_consumes:
  assumes "consumes pv L"
  shows "length s \<le> Suc L \<Longrightarrow> length s < n \<Longrightarrow>
         parseObjectLoop pv n obj s \<noteq> Inl FuelExhausted
         \<and> (\<forall>v l r. parseObjectLoop pv n obj s = Inr (v, l, r) \<longrightarrow> length r \<le> length s)"
proof (induction n arbitrary: obj s)
  case 0
  then show ?case by simp
next
  case (Suc n)
  show ?case
  proof (cases "trim s = []")
    case True
    then show ?thesis by simp
  next
    case False
    show ?thesis
    proof (cases "parseKey (trim s)")
      case (Inl e)
      with parseKey_fuel [of "trim s"] have "e \<noteq> FuelExhausted" by auto
      with False Inl show ?thesis by simp
    next
      case (Inr kr)
      then obtain key r1 where kr: "parseKey (trim s) = Inr (key, r1)" by (cases kr) auto
      then have r1: "length r1 < length (trim s)" by (rule parseKey_length)
      with length_trim [of s] Suc.prems have r1L: "length r1 \<le> L" by simp
      show ?thesis
      proof (cases "pv r1")
        case (Inl e)
        with assms r1L have "e \<noteq> FuelExhausted" by (auto simp: consumes_def)
        with False kr Inl show ?thesis by simp
      next
        case (Inr res)
        then obtain v vl r where res: "pv r1 = Inr (v, vl, r)" by (cases res) auto
        with assms r1L have r: "length r < length r1" by (auto simp: consumes_def)
        have tr: "length (trim r) \<le> length r" by (rule length_trim)
        have next_len: "length (trim (substring (trim r) 1)) \<le> length (trim r)"
          using length_trim [of "drop 1 (trim r)"] by (simp add: substring_def)
        have IH: "parseObjectLoop pv n (objSet obj key (v, vl)) (trim (substring (trim r) 1)) \<noteq> Inl FuelExhausted
             \<and> (\<forall>v' l' r'. parseObjectLoop pv n (objSet obj key (v, vl)) (trim (substring (trim r) 1)) = Inr (v', l', r')
                  \<longrightarrow> length r' \<le> length (trim (substring (trim r) 1)))"
          using Suc.prems r r1 tr next_len length_trim [of s]
          by (intro Suc.IH) simp_all
        show ?thesis
          using False kr res IH r r1 tr next_len length_trim [of s]
          by (auto simp: Let_def substring_def)
      qed
    qed
  qed
qed

lemma parseArrayLoop_consumes:
  assumes "consumes pv L"
  shows "length s \<le> L \<Longrightarrow> length s < n \<Longrightarrow>
         parseArrayLoop pv n arr s \<noteq> Inl FuelExhausted
         \<and> (\<forall>v l r. parseArrayLoop pv n arr s = Inr (v, l, r) \<longrightarrow> length r < length s)"
proof (induction n arbitrary: arr s)
  case 0
  then show ?case by simp
next
  case (Suc n)
  from Suc.prems length_trim [of s] have tL: "length (trim s) \<le> L" by simp
  show ?case
  proof (cases "pv (trim s)")
    case (Inl e)
    with assms tL have "e \<noteq> FuelExhausted" by (auto simp: consumes_def)
    with Inl show ?thesis by simp
  next
    case (Inr res)
    then obtain v vl r where res: "pv (trim s) = Inr (v, vl, r)" by (cases res) auto
    with assms tL have r: "length r < length (trim s)" by (auto simp: consumes_def)
    have tr: "length (trim r) \<le> length r" by (rule length_trim)
    have next_len: "length (trim (substring (trim r) 1)) \<le> length (trim r)"
      using length_trim [of "drop 1 (trim r)"] by (simp add: substring_def)
    have IH: "parseArrayLoop pv n (arr @ [v]) (trim (substring (trim r) 1)) \<noteq> Inl FuelExhausted
         \<and> (\<forall>v' l' r'. parseArrayLoop pv n (arr @ [v]) (trim (substring (trim r) 1)) = Inr (v', l', r')
              \<longrightarrow> length r' < length (trim (substring (trim r) 1)))"
      using Suc.prems r tr next_len length_trim [of s]
      by (intro Suc.IH) simp_all
    show ?thesis
      using res IH r tr next_len length_trim [of s]
      by (auto simp: Let_def substring_def)
  qed
qed

lemma parseObject_consumes:
  assumes "consumes pv L" and "length s \<le> Suc L" and "length s \<le> n"
  shows "parseObject pv n s \<noteq> Inl FuelExhausted
         \<and> (\<forall>v l r. parseObject pv n s = Inr (v, l, r) \<longrightarrow> length r < length s)"
proof (cases "startsWith s ''{''")
  case False
  then show ?thesis by (simp add: parseObject_def)
next
  case True
  then obtain s' where s: "s = CHR ''{'' # s'" by (auto simp: startsWith_Cons)
  have len: "length (trim s') \<le> length s'" by (rule length_trim)
  show ?thesis
  proof (cases "startsWith (trim s') ''}''")
    case True
    with len show ?thesis
      by (auto simp: parseObject_def s substring_def startsWith_Cons Let_def)
  next
    case False
    have "parseObjectLoop pv n ([], True) (trim s') \<noteq> Inl FuelExhausted
         \<and> (\<forall>v l r. parseObjectLoop pv n ([], True) (trim s') = Inr (v, l, r)
               \<longrightarrow> length r \<le> length (trim s'))"
      using assms len by (intro parseObjectLoop_consumes [where L = L]) (simp_all add: s)
    with False len show ?thesis
      by (auto simp: parseObject_def s substring_def Let_def)
  qed
qed

lemma parseArray_consumes:
  assumes "consumes pv L" and "length s \<le> Suc L" and "length s \<le> n"
  shows "parseArray pv n s \<noteq> Inl FuelExhausted
         \<and> (\<forall>v l r. parseArray pv n s = Inr (v, l, r) \<longrightarrow> length r < length s)"
proof (cases "startsWith s ''[''")
  case False
  then show ?thesis by (simp add: parseArray_def)
next
  case True
  then obtain s' where s: "s = CHR ''['' # s'" by (auto simp: startsWith_Cons)
  have len: "length (trim s') \<le> length s'" by (rule length_trim)
  show ?thesis
  proof (cases "startsWith (trim s') '']''")
    case True
    with len show ?thesis
      by (auto simp: parseArray_def s substring_def startsWith_Cons Let_def)
  next
    case False
    have "parseArrayLoop pv n [] (trim s') \<noteq> Inl FuelExhausted
         \<and> (\<forall>v l r. parseArrayLoop pv n [] (trim s') = Inr (v, l, r)
               \<longrightarrow> length r < length (trim s'))"
      using assms len by (intro parseArrayLoop_consumes [where L = L]) (simp_all add: s)
    with False len show ?thesis
      by (auto simp: parseArray_def s substring_def Let_def)
  qed
qed

lemma startsWith_drop: "startsWith s p \<Longrightarrow> p \<noteq> [] \<Longrightarrow> length (drop (length p) s) < length s"
  using startsWith_length [of s p] by (cases s) auto

lemma scalar_consumes:
  fixes pf :: "string \<Rightarrow> 'n"
  defines "scalar \<equiv> (\<lambda>t. if startsWith t [DQ] \<or> startsWith t [SQ] then
           (case parseString t of
              Inl e \<Rightarrow> Inl e
            | Inr (s, r) \<Rightarrow> Inr (VStr s, True, r))
         else if matchNumber t \<noteq> None then parseNumber pf t
         else if startsWith t ''true'' then Inr (VBool True, True, substring t 4)
         else if startsWith t ''false'' then Inr (VBool False, True, substring t 5)
         else if startsWith t ''null'' then Inr (VNull, True, substring t 4)
         else Inl (UnexpectedToken (take 20 t)))"
  shows "scalar t \<noteq> Inl FuelExhausted \<and> (\<forall>v l r. scalar t = Inr (v, l, r) \<longrightarrow> length r < length t)"
proof -
  have shorter: "\<And>p. startsWith t p \<Longrightarrow> p \<noteq> [] \<Longrightarrow> length (drop (length p) t) < length t"
    by (rule startsWith_drop)
  have numf: "parseNumber pf t \<noteq> Inl FuelExhausted"
    by (auto simp: parseNumber_def split: option.splits)
  consider (str) "startsWith t [DQ] \<or> startsWith t [SQ]"
    | (num) "\<not> (startsWith t [DQ] \<or> startsWith t [SQ])" "matchNumber t \<noteq> None"
    | (lit) "\<not> (startsWith t [DQ] \<or> startsWith t [SQ])" "matchNumber t = None"
    by blast
  then show ?thesis
  proof cases
    case str
    then have "scalar t = (case parseString t of
              Inl e \<Rightarrow> Inl e
            | Inr (s, r) \<Rightarrow> Inr (VStr s, True, r))"
      unfolding scalar_def by (simp only: if_True)
    then show ?thesis
      using parseString_fuel [of t] parseString_length [of t]
      by (auto split: sum.splits)
  next
    case num
    then have "scalar t = parseNumber pf t"
      unfolding scalar_def by simp
    then show ?thesis
      using numf parseNumber_length [of pf t] by auto
  next
    case lit
    then have "scalar t = (if startsWith t ''true'' then Inr (VBool True, True, substring t 4)
         else if startsWith t ''false'' then Inr (VBool False, True, substring t 5)
         else if startsWith t ''null'' then Inr (VNull, True, substring t 4)
         else Inl (UnexpectedToken (take 20 t)))"
      unfolding scalar_def by simp
    then show ?thesis
      using shorter [of "''true''"] shorter [of "''false''"] shorter [of "''null''"]
      by (auto simp: substring_def)
  qed
qed

lemma parseValue_consumes: "consumes (parseValue pf (Suc n)) n"
proof (induction n)
  case 0
  have "parseValue pf (Suc 0) [] = Inl (UnexpectedToken [])"
    by (simp add: trim_def startsWith_def matchNumber_def)
  then show ?case
    by (simp add: consumes_def del: parseValue.simps)
next
  case (Suc n)
  show ?case
    unfolding consumes_def
  proof (intro allI impI)
    fix s :: string
    assume len: "length s \<le> Suc n"
    let ?t = "trim s"
    have tlen: "length ?t \<le> length s" by (rule length_trim)
    have obj: "parseObject (parseValue pf (Suc n)) (Suc n) ?t \<noteq> Inl FuelExhausted
         \<and> (\<forall>v l r. parseObject (parseValue pf (Suc n)) (Suc n) ?t = Inr (v, l, r) \<longrightarrow> length r < length ?t)"
      by (rule parseObject_consumes [where L = n, OF Suc.IH]) (use len tlen in simp_all)
    have arr: "parseArray (parseValue pf (Suc n)) (Suc n) ?t \<noteq> Inl FuelExhausted
         \<and> (\<forall>v l r. parseArray (parseValue pf (Suc n)) (Suc n) ?t = Inr (v, l, r) \<longrightarrow> length r < length ?t)"
      by (rule parseArray_consumes [where L = n, OF Suc.IH]) (use len tlen in simp_all)
    note sc = scalar_consumes [of ?t pf]
    have unfold: "parseValue pf (Suc (Suc n)) s =
       (if startsWith ?t ''{'' then parseObject (parseValue pf (Suc n)) (Suc n) ?t
         else if startsWith ?t ''['' then parseArray (parseValue pf (Suc n)) (Suc n) ?t
         else if startsWith ?t [DQ] \<or> startsWith ?t [SQ] then
           (case parseString ?t of
              Inl e \<Rightarrow> Inl e
            | Inr (s, r) \<Rightarrow> Inr (VStr s, True, r))
         else if matchNumber ?t \<noteq> None then parseNumber pf ?t
         else if startsWith ?t ''true'' then Inr (VBool True, True, substring ?t 4)
         else if startsWith ?t ''false'' then Inr (VBool False, True, substring ?t 5)
         else if startsWith ?t ''null'' then Inr (VNull, True, substring ?t 4)
         else Inl (UnexpectedToken (take 20 ?t)))"
      unfolding parseValue.simps(2) [of pf "Suc n" s] Let_def ..
    consider (object) "startsWith ?t ''{''"
      | (array) "\<not> startsWith ?t ''{''" "startsWith ?t ''[''"
      | (other) "\<not> startsWith ?t ''{''" "\<not> startsWith ?t ''[''"
      by blast
    then show "parseValue pf (Suc (Suc n)) s \<noteq> Inl FuelExhausted
         \<and> (\<forall>v l r. parseValue pf (Suc (Suc n)) s = Inr (v, l, r) \<longrightarrow> length r < length s)"
    proof cases
      case object
      then have "parseValue pf (Suc (Suc n)) s = parseObject (parseValue pf (Suc n)) (Suc n) ?t"
        unfolding unfold by (simp only: if_True)
      with obj tlen show ?thesis by (auto simp del: parseValue.simps)
    next
      case array
      then have "parseValue pf (Suc (Suc n)) s = parseArray (parseValue pf (Suc n)) (Suc n) ?t"
        unfolding unfold by (simp only: if_True if_False)
      with arr tlen show ?thesis by (auto simp del: parseValue.simps)
    next
      case other
      have eq: "parseValue pf (Suc (Suc n)) s =
         (if startsWith ?t [DQ] \<or> startsWith ?t [SQ] then
           (case parseString ?t of
              Inl e \<Rightarrow> Inl e
            | Inr (s, r) \<Rightarrow> Inr (VStr s, True, r))
         else if matchNumber ?t \<noteq> None then parseNumber pf ?t
         else if startsWith ?t ''true'' then Inr (VBool True, True, substring ?t 4)
         else if startsWith ?t ''false'' then Inr (VBool False, True, substring ?t 5)
         else if startsWith ?t ''null'' then Inr (VNull, True, substring ?t 4)
         else Inl (UnexpectedToken (take 20 ?t)))"
        unfolding unfold using other by (simp only: if_False)
      show ?thesis
        unfolding eq using sc tlen by (blast intro: order.strict_trans2)
    qed
  qed
qed

lemma parseValue_fuel: "length s < n \<Longrightarrow> parseValue pf n s \<noteq> Inl FuelExhausted"
  using parseValue_consumes [of pf "n - 1"]
  by (cases n) (auto simp: consumes_def simp del: parseValue.simps)

lemma parseJson_fuel: "parseJson pf input \<noteq> Inl FuelExhausted"
  using parseValue_fuel [of "trim input" "Suc (length (trim input))" pf]
  by (auto simp: parseJson_def Let_def split: sum.splits simp del: parseValue.simps)

lemma consumes_mono: "consumes pv L \<Longrightarrow> K \<le> L \<Longrightarrow> consumes pv K"
  by (auto simp: consumes_def)

lemma parseObjectLoop_bound:
  assumes "consumes pv L" and agree: "\<forall>s. length s \<le> L \<longrightarrow> pv s = pv' s"
  shows "length s \<le> Suc L \<Longrightarrow> length s < n \<Longrightarrow> length s < m \<Longrightarrow>
         parseObjectLoop pv n obj s = parseObjectLoop pv' m obj s"
proof (induction n arbitrary: m obj s)
  case 0
  then show ?case by simp
next
  case (Suc n)
  from Suc.prems obtain m' where m: "m = Suc m'" by (cases m) auto
  show ?case
  proof (cases "trim s = []")
    case True
    then show ?thesis by (simp add: m)
  next
    case False
    show ?thesis
    proof (cases "parseKey (trim s)")
      case (Inl e)
      with False show ?thesis by (simp add: m)
    next
      case (Inr kr)
      then obtain key r1 where kr: "parseKey (trim s) = Inr (key, r1)" by (cases kr) auto
      then have r1: "length r1 < length (trim s)" by (rule parseKey_length)
      with length_trim [of s] Suc.prems have r1L: "length r1 \<le> L" by simp
      with agree have same: "pv' r1 = pv r1" by simp
      show ?thesis
      proof (cases "pv r1")
        case (Inl e)
        with False kr same show ?thesis by (simp add: m)
      next
        case (Inr res)
        then obtain v vl r where res: "pv r1 = Inr (v, vl, r)" by (cases res) auto
        with assms(1) r1L have r: "length r < length r1" by (auto simp: consumes_def)
        have tr: "length (trim r) \<le> length r" by (rule length_trim)
        have next_len: "length (trim (substring (trim r) 1)) \<le> length (trim r)"
          using length_trim [of "drop 1 (trim r)"] by (simp add: substring_def)
        have IH: "parseObjectLoop pv n (objSet obj key (v, vl)) (trim (substring (trim r) 1))
                = parseObjectLoop pv' m' (objSet obj key (v, vl)) (trim (substring (trim r) 1))"
          using Suc.prems r r1 tr next_len length_trim [of s] m
          by (intro Suc.IH) simp_all
        show ?thesis
          using False kr res same IH by (simp add: m Let_def)
      qed
    qed
  qed
qed

lemma parseArrayLoop_bound:
  assumes "consumes pv L" and agree: "\<forall>s. length s \<le> L \<longrightarrow> pv s = pv' s"
  shows "length s \<le> L \<Longrightarrow> length s < n \<Longrightarrow> length s < m \<Longrightarrow>
         parseArrayLoop pv n arr s = parseArrayLoop pv' m arr s"
proof (induction n arbitrary: m arr s)
  case 0
  then show ?case by simp
next
  case (Suc n)
  from Suc.prems obtain m' where m: "m = Suc m'" by (cases m) auto
  from Suc.prems length_trim [of s] have tL: "length (trim s) \<le> L" by simp
  with agree have same: "pv' (trim s) = pv (trim s)" by simp
  show ?case
  proof (cases "pv (trim s)")
    case (Inl e)
    with same show ?thesis by (simp add: m)
  next
    case (Inr res)
    then obtain v vl r where res: "pv (trim s) = Inr (v, vl, r)" by (cases res) auto
    with assms(1) tL have r: "length r < length (trim s)" by (auto simp: consumes_def)
    have tr: "length (trim r) \<le> length r" by (rule length_trim)
    have next_len: "length (trim (substring (trim r) 1)) \<le> length (trim r)"
      using length_trim [of "drop 1 (trim r)"] by (simp add: substring_def)
    have IH: "parseArrayLoop pv n (arr @ [v]) (trim (substring (trim r) 1))
            = parseArrayLoop pv' m' (arr @ [v]) (trim (substring (trim r) 1))"
      using Suc.prems r tr next_len length_trim [of s] m
      by (intro Suc.IH) simp_all
    show ?thesis
      using res same IH by (simp add: m Let_def)
  qed
qed

lemma parseObject_bound:
  assumes "consumes pv L" and "\<forall>s. length s \<le> L \<longrightarrow> pv s = pv' s"
    and "length s \<le> Suc L" and "length s \<le> n" and "length s \<le> m"
  shows "parseObject pv n s = parseObject pv' m s"
proof (cases "startsWith s ''{''")
  case False
  then show ?thesis by (simp add: parseObject_def)
next
  case True
  then obtain s' where s: "s = CHR ''{'' # s'" by (auto simp: startsWith_Cons)
  have len: "length (trim s') \<le> length s'" by (rule length_trim)
  have "parseObjectLoop pv n ([], True) (trim s') = parseObjectLoop pv' m ([], True) (trim s')"
    using assms len by (intro parseObjectLoop_bound [where L = L]) (simp_all add: s)
  then show ?thesis
    by (simp add: parseObject_def s substring_def Let_def)
qed

lemma parseArray_bound:
  assumes "consumes pv L" and "\<forall>s. length s \<le> L \<longrightarrow> pv s = pv' s"
    and "length s \<le> Suc L" and "length s \<le> n" and "length s \<le> m"
  shows "parseArray pv n s = parseArray pv' m s"
proof (cases "startsWith s ''[''")
  case False
  then show ?thesis by (simp add: parseArray_def)
next
  case True
  then obtain s' where s: "s = CHR ''['' # s'" by (auto simp: startsWith_Cons)
  have len: "length (trim s') \<le> length s'" by (rule length_trim)
  have "parseArrayLoop pv n [] (trim s') = parseArrayLoop pv' m [] (trim s')"
    using assms len by (intro parseArrayLoop_bound [where L = L]) (simp_all add: s)
  then show ?thesis
    by (simp add: parseArray_def s substring_def Let_def)
qed

lemma parseValue_bound:
  "length s < n \<Longrightarrow> length s < m \<Longrightarrow> parseValue pf n s = parseValue pf m s"
proof (induction n arbitrary: m s)
  case 0
  then show ?case by simp
next
  case (Suc n)
  from Suc.prems obtain m' where m: "m = Suc m'" by (cases m) auto
  let ?t = "trim s"
  have tlen: "length ?t \<le> length s" by (rule length_trim)
  show ?case
  proof (cases "?t = []")
    case True
    then show ?thesis
      by (simp add: m parseObject_def parseArray_def startsWith_def)
  next
    case False
    define L where "L = length ?t - 1"
    from False have tL: "length ?t = Suc L" by (cases ?t) (auto simp: L_def)
    from Suc.prems tlen tL obtain k where n: "n = Suc k" and Lk: "L \<le> k"
      by (cases n) auto
    have cons: "consumes (parseValue pf n) L"
      using parseValue_consumes [of pf k] Lk unfolding n by (rule consumes_mono)
    have agree: "\<forall>s'. length s' \<le> L \<longrightarrow> parseValue pf n s' = parseValue pf m' s'"
      using Suc.prems tlen tL m by (intro allI impI Suc.IH) simp_all
    have obj: "parseObject (parseValue pf n) n ?t = parseObject (parseValue pf m') m' ?t"
      using cons agree Suc.prems tlen tL m by (intro parseObject_bound [where L = L]) simp_all
    have arr: "parseArray (parseValue pf n) n ?t = parseArray (parseValue pf m') m' ?t"
      using cons agree Suc.prems tlen tL m by (intro parseArray_bound [where L = L]) simp_all
    show ?thesis
      unfolding m parseValue.simps(2) Let_def obj arr ..
  qed
qed

lemma message_nonempty: "e \<noteq> FuelExhausted \<Longrightarrow> message e \<noteq> []"
  by (cases e) simp_all

lemma trim_Nil: "trim [] = []"
  by (simp add: trim_def)

lemma parseValue_Nil: "parseValue pf n [] \<noteq> Inr res"
  by (cases n) (simp_all add: trim_Nil startsWith_def matchNumber_def)

lemma parseJson_empty: "parseJson pf [] = Inl EmptyInput"
  by (simp add: parseJson_def trim_def)

subsection \<open>Keys with and without quotes\<close>

lemma trim_rtrim: "trim s = rtrim (dropWhile isSpace s)"
  by (simp add: trim_def rtrim_def)

lemma rtrim_Nil: "rtrim [] = []"
  by (simp add: rtrim_def)

lemma rtrim_append_nonspace: "\<not> isSpace y \<Longrightarrow> rtrim (a @ y # b) = a @ y # rtrim b"
  by (simp add: rtrim_def dropWhile_append)

lemma rtrim_Cons: "rtrim (x # xs) = (if rtrim xs = [] \<and> isSpace x then [] else x # rtrim xs)"
  by (auto simp: rtrim_def dropWhile_append)

lemma ltrim_rtrim: "dropWhile isSpace (rtrim s) = rtrim (dropWhile isSpace s)"
  by (induction s) (auto simp: rtrim_Cons rtrim_Nil)

lemma rtrim_idem: "rtrim (rtrim s) = rtrim s"
  by (induction s) (auto simp: rtrim_Cons rtrim_Nil)

lemma trim_rtrim_absorb: "trim (rtrim s) = trim s"
  by (simp add: trim_rtrim ltrim_rtrim rtrim_idem)

lemma trim_trim: "trim (trim s) = trim s"
  by (simp add: trim_rtrim ltrim_rtrim rtrim_idem)

lemma dropWhile_spaces: "list_all isSpace ws \<Longrightarrow> \<not> isSpace y \<Longrightarrow> dropWhile isSpace (ws @ y # b) = y # b"
  by (induction ws) auto

lemma takeWhile_spaces: "list_all isSpace ws \<Longrightarrow> \<not> isSpace y \<Longrightarrow> takeWhile isSpace (ws @ y # b) = ws"
  by (induction ws) auto

lemma parseStringLoop_plain:
  "\<forall>c \<in> set k. c \<noteq> BSL \<and> c \<noteq> q \<Longrightarrow>
   parseStringLoop q val False (k @ r) = parseStringLoop q (val @ k) False r"
  by (induction k arbitrary: val) auto

lemma isIdentPart_plain: "isIdentPart c \<Longrightarrow> c \<noteq> BSL \<and> c \<noteq> DQ \<and> c \<noteq> SQ \<and> \<not> isSpace c \<and> c \<noteq> CHR '':''"
  by (auto simp: isIdentPart_def isIdentStart_def isDigit_def isSpace_def)

lemma isIdentifier_parts: "isIdentifier k \<Longrightarrow> k \<noteq> [] \<and> isIdentStart (hd k) \<and> list_all isIdentPart k"
  by (cases k) (auto simp: isIdentifier_def isIdentPart_def)

lemma colon_nonspace: "\<not> isSpace (CHR '':'')"
  by (simp add: isSpace_def)

lemma parseKey_unquoted:
  assumes "isIdentifier k" and "list_all isSpace ws"
  shows "parseKey (k @ ws @ CHR '':'' # rest) = Inr (k, trim rest)"
proof -
  from assms(1) obtain c cs where k: "k = c # cs" and c: "isIdentStart c" and cs: "list_all isIdentPart cs"
    by (cases k) (auto simp: isIdentifier_def)
  have cplain: "c \<noteq> DQ \<and> c \<noteq> SQ"
    using c isIdentPart_plain [of c] by (simp add: isIdentPart_def)
  have tw: "takeWhile isIdentPart (cs @ ws @ CHR '':'' # rest) = cs"
  proof (cases ws)
    case Nil
    then show ?thesis using cs isIdentPart_plain [of "CHR '':''"]
      by (auto simp: list_all_iff takeWhile_append)
  next
    case (Cons w ws')
    with assms(2) have "\<not> isIdentPart w" using isIdentPart_plain [of w] by auto
    with Cons show ?thesis using cs by (auto simp: list_all_iff takeWhile_append)
  qed
  have dw: "dropWhile isIdentPart (cs @ ws @ CHR '':'' # rest) = ws @ CHR '':'' # rest"
    using tw takeWhile_dropWhile_id [of isIdentPart "cs @ ws @ CHR '':'' # rest"]
    by (metis append_same_eq append_eq_append_conv same_append_eq)
  have mk: "matchKey (k @ ws @ CHR '':'' # rest) = Some (k, length k + length ws + 1)"
    using c assms(2)
    by (simp add: matchKey_def k tw dw Let_def dropWhile_spaces takeWhile_spaces colon_nonspace)
  show ?thesis
    using cplain mk by (simp add: parseKey_def k startsWith_def substring_def)
qed

lemma parseKey_quoted:
  assumes "isIdentifier k" and "list_all isSpace ws"
  shows "parseKey ([DQ] @ k @ [DQ] @ ws @ CHR '':'' # rest) = Inr (k, trim rest)"
proof -
  from assms(1) have parts: "list_all isIdentPart k" by (simp add: isIdentifier_parts)
  then have plain: "\<forall>c \<in> set k. c \<noteq> BSL \<and> c \<noteq> DQ"
    using isIdentPart_plain by (auto simp: list_all_iff)
  have ps: "parseString (DQ # k @ DQ # ws @ CHR '':'' # rest) = Inr (k, ws @ CHR '':'' # rest)"
    using parseStringLoop_plain [OF plain, of "[]" "DQ # ws @ CHR '':'' # rest"]
    by (simp add: parseString_def)
  have tr: "trim (ws @ CHR '':'' # rest) = CHR '':'' # rtrim rest"
    using assms(2) rtrim_append_nonspace [of "CHR '':''" "[]" rest]
    by (simp add: trim_rtrim dropWhile_spaces colon_nonspace)
  show ?thesis
    by (simp add: parseKey_def startsWith_def ps tr substring_def trim_rtrim_absorb)
qed

lemma trim_nonspace_colon:
  "\<not> isSpace c \<Longrightarrow> trim (c # a @ CHR '':'' # rest) = c # a @ CHR '':'' # rtrim rest"
  using rtrim_append_nonspace [of "CHR '':''" "c # a" rest]
  by (simp add: trim_rtrim colon_nonspace)

lemma identifier_head: "isIdentifier k \<Longrightarrow> \<exists>c cs. k = c # cs \<and> \<not> isSpace c \<and> c \<noteq> CHR ''}'' \<and> c \<noteq> CHR ''{''"
  by (cases k) (auto simp: isIdentifier_def isIdentStart_def isSpace_def)

lemma parseObjectLoop_key_equiv:
  assumes "isIdentifier k" and "list_all isSpace ws"
  shows "parseObjectLoop pv n obj (k @ ws @ CHR '':'' # rest)
       = parseObjectLoop pv n obj (DQ # k @ DQ # ws @ CHR '':'' # rest)"
proof (cases n)
  case 0
  then show ?thesis by simp
next
  case (Suc m)
  from identifier_head [OF assms(1)] obtain c cs where k: "k = c # cs" and c: "\<not> isSpace c"
    by blast
  have t1: "trim (k @ ws @ CHR '':'' # rest) = k @ ws @ CHR '':'' # rtrim rest"
    using trim_nonspace_colon [OF c, of "cs @ ws" rest] by (simp add: k)
  have t2: "trim (DQ # k @ DQ # ws @ CHR '':'' # rest) = DQ # k @ DQ # ws @ CHR '':'' # rtrim rest"
    using trim_nonspace_colon [of DQ "k @ DQ # ws" rest] by (simp add: isSpace_def)
  have k1: "parseKey (k @ ws @ CHR '':'' # rtrim rest) = Inr (k, trim rest)"
    using parseKey_unquoted [OF assms, of "rtrim rest"] by (simp add: trim_rtrim_absorb)
  have k2: "parseKey (DQ # k @ DQ # ws @ CHR '':'' # rtrim rest) = Inr (k, trim rest)"
    using parseKey_quoted [OF assms, of "rtrim rest"] by (simp add: trim_rtrim_absorb)
  show ?thesis
    unfolding Suc parseObjectLoop.simps t1 t2 Let_def k1 k2 by (simp add: k)
qed

lemma parseValue_key_equiv:
  assumes "isIdentifier k" and "list_all isSpace ws"
  shows "parseValue pf n (CHR ''{'' # k @ ws @ CHR '':'' # rest)
       = parseValue pf n (CHR ''{'' # DQ # k @ DQ # ws @ CHR '':'' # rest)"
proof (cases n)
  case 0
  then show ?thesis by simp
next
  case (Suc m)
  from identifier_head [OF assms(1)] obtain c cs where k: "k = c # cs" and c: "\<not> isSpace c"
    and cb: "c \<noteq> CHR ''}''"
    by blast
  have t1: "trim (CHR ''{'' # k @ ws @ CHR '':'' # rest) = CHR ''{'' # k @ ws @ CHR '':'' # rtrim rest"
    using trim_nonspace_colon [of "CHR ''{''" "k @ ws" rest] by (simp add: isSpace_def)
  have t2: "trim (CHR ''{'' # DQ # k @ DQ # ws @ CHR '':'' # rest)
          = CHR ''{'' # DQ # k @ DQ # ws @ CHR '':'' # rtrim rest"
    using trim_nonspace_colon [of "CHR ''{''" "DQ # k @ DQ # ws" rest] by (simp add: isSpace_def)
  have u1: "trim (c # cs @ ws @ CHR '':'' # rtrim rest) = c # cs @ ws @ CHR '':'' # rtrim rest"
    using trim_nonspace_colon [OF c, of "cs @ ws" "rtrim rest"] by (simp add: rtrim_idem)
  have u2: "trim (DQ # k @ DQ # ws @ CHR '':'' # rtrim rest) = DQ # k @ DQ # ws @ CHR '':'' # rtrim rest"
    using trim_nonspace_colon [of DQ "k @ DQ # ws" "rtrim rest"] by (simp add: isSpace_def rtrim_idem)
  have o1: "parseObject (parseValue pf m) m (CHR ''{'' # k @ ws @ CHR '':'' # rtrim rest)
          = parseObjectLoop (parseValue pf m) m ([], True) (k @ ws @ CHR '':'' # rtrim rest)"
    using cb by (simp add: parseObject_def startsWith_def substring_def u1 k)
  have o2: "parseObject (parseValue pf m) m (CHR ''{'' # DQ # k @ DQ # ws @ CHR '':'' # rtrim rest)
          = parseObjectLoop (parseValue pf m) m ([], True) (DQ # k @ DQ # ws @ CHR '':'' # rtrim rest)"
    by (simp add: parseObject_def startsWith_def substring_def u2)
  show ?thesis
    unfolding Suc parseValue.simps t1 t2 Let_def
    using o1 o2 parseObjectLoop_key_equiv [OF assms, of "parseValue pf m" m "([], True)" "rtrim rest"]
    by (simp add: startsWith_def)
qed

lemma parseJson_key_equiv:
  assumes "isIdentifier k" and "list_all isSpace ws"
  shows "parseJson pf (CHR ''{'' # k @ ws @ CHR '':'' # rest)
       = parseJson pf (CHR ''{'' # DQ # k @ DQ # ws @ CHR '':'' # rest)"
proof -
  let ?A = "CHR ''{'' # k @ ws @ CHR '':'' # rtrim rest"
  let ?B = "CHR ''{'' # DQ # k @ DQ # ws @ CHR '':'' # rtrim rest"
  have t1: "trim (CHR ''{'' # k @ ws @ CHR '':'' # rest) = ?A"
    using trim_nonspace_colon [of "CHR ''{''" "k @ ws" rest] by (simp add: isSpace_def)
  have t2: "trim (CHR ''{'' # DQ # k @ DQ # ws @ CHR '':'' # rest) = ?B"
    using trim_nonspace_colon [of "CHR ''{''" "DQ # k @ DQ # ws" rest] by (simp add: isSpace_def)
  have "parseValue pf (Suc (length ?A)) ?A = parseValue pf (Suc (length ?B)) ?A"
    by (rule parseValue_bound) simp_all
  also have "\<dots> = parseValue pf (Suc (length ?B)) ?B"
    using parseValue_key_equiv [OF assms, of pf "Suc (length ?B)" "rtrim rest"] .
  finally have "parseValue pf (Suc (length ?A)) ?A = parseValue pf (Suc (length ?B)) ?B" .
  then show ?thesis
    unfolding parseJson_def t1 t2 Let_def by (simp del: parseValue.simps)
qed

subsection \<open>An array index is determined by its number\<close>

lemma digitChar_digitVal: "isDigit c \<Longrightarrow> digitChar (digitVal c) = c \<and> digitVal c < 10"
  by (auto simp: isDigit_def digitChar_def digitVal_def)

lemma decimalValue_snoc: "decimalValue (ds @ [d]) = 10 * decimalValue ds + int (digitVal d)"
  by (simp add: decimalValue_def)

lemma decimalValue_nonneg: "0 \<le> decimalValue ds"
  by (induction ds rule: rev_induct) (simp_all add: decimalValue_snoc, simp add: decimalValue_def)

lemma decimalValue_pos:
  "ds \<noteq> [] \<Longrightarrow> list_all isDigit ds \<Longrightarrow> hd ds \<noteq> CHR ''0'' \<Longrightarrow> 0 < decimalValue ds"
proof (induction ds rule: rev_induct)
  case Nil
  then show ?case by simp
next
  case (snoc d ds)
  show ?case
  proof (cases "ds = []")
    case True
    with snoc.prems show ?thesis
      by (auto simp: decimalValue_def isDigit_def digitVal_def)
  next
    case False
    with snoc have "0 < decimalValue ds" by simp
    then show ?thesis by (simp add: decimalValue_snoc)
  qed
qed

lemma showNat_decimalValue:
  "ds \<noteq> [] \<Longrightarrow> list_all isDigit ds \<Longrightarrow> ds = ''0'' \<or> hd ds \<noteq> CHR ''0'' \<Longrightarrow>
   showNat (nat (decimalValue ds)) = ds"
proof (induction ds rule: rev_induct)
  case Nil
  then show ?case by simp
next
  case (snoc d ds)
  from snoc.prems have d: "isDigit d" by simp
  show ?case
  proof (cases "ds = []")
    case True
    with d show ?thesis
      using digitChar_digitVal [of d] by (subst showNat.simps) (simp add: decimalValue_def del: showNat.simps)
  next
    case False
    with snoc.prems have hd: "hd ds \<noteq> CHR ''0''" and all: "list_all isDigit ds"
      by auto
    with False have pos: "0 < decimalValue ds" by (simp add: decimalValue_pos)
    from False all hd have IH: "showNat (nat (decimalValue ds)) = ds"
      by (intro snoc.IH) simp_all
    let ?v = "nat (decimalValue ds)"
    have val: "nat (decimalValue (ds @ [d])) = 10 * ?v + digitVal d"
      using pos by (simp add: decimalValue_snoc nat_add_distrib nat_mult_distrib)
    have big: "\<not> 10 * ?v + digitVal d < 10" using pos by simp
    have "showNat (10 * ?v + digitVal d) = showNat ((10 * ?v + digitVal d) div 10) @ [digitChar ((10 * ?v + digitVal d) mod 10)]"
      using big by (subst showNat.simps) simp
    also have "(10 * ?v + digitVal d) div 10 = ?v"
      using digitChar_digitVal [OF d] by simp
    also have "(10 * ?v + digitVal d) mod 10 = digitVal d"
      using digitChar_digitVal [OF d] by simp
    finally show ?thesis
      using IH digitChar_digitVal [OF d] by (simp add: val del: showNat.simps)
  qed
qed

lemma arrayIndex_inject:
  assumes "isArrayIndex a" and "isArrayIndex b" and "decimalValue a = decimalValue b"
  shows "a = b"
proof -
  have "showNat (nat (decimalValue a)) = a" "showNat (nat (decimalValue b)) = b"
    using assms(1,2) by (simp_all add: isArrayIndex_def showNat_decimalValue del: showNat.simps)
  with assms(3) show ?thesis by metis
qed

subsection \<open>Parsed objects have ordered keys\<close>

lemma keys_overwrite: "map fst (overwrite k v ps) = map fst ps"
  by (induction ps) auto

lemma set_overwrite: "(a, b) \<in> set (overwrite k v ps) \<Longrightarrow> b = v \<or> (a, b) \<in> set ps"
  by (induction ps) (auto split: if_splits)

lemma set_insertIndex: "set (insertIndex k v ps) = insert (k, v) (set ps)"
  by (induction ps) (auto split: if_splits)

lemma ordered_append:
  "ownKeysOrdered ks \<Longrightarrow> k \<notin> set ks \<Longrightarrow> \<not> isArrayIndex k \<Longrightarrow> ownKeysOrdered (ks @ [k])"
  by (induction ks) auto

lemma ordered_insertIndex:
  "ownKeysOrdered (map fst ps) \<Longrightarrow> k \<notin> set (map fst ps) \<Longrightarrow> isArrayIndex k \<Longrightarrow>
   ownKeysOrdered (map fst (insertIndex k v ps))"
proof (induction ps)
  case Nil
  then show ?case by simp
next
  case (Cons p ps)
  obtain k' v' where p: "p = (k', v')" by (cases p)
  show ?case
  proof (cases "isArrayIndex k' \<and> decimalValue k' < decimalValue k")
    case True
    with Cons p show ?thesis
      by (auto simp: set_insertIndex)
  next
    case False
    from Cons.prems p have ne: "k' \<noteq> k" by auto
    have before: "isArrayIndex k' \<Longrightarrow> decimalValue k < decimalValue k'"
      using False ne arrayIndex_inject [OF Cons.prems(3), of k'] by force
    from False Cons.prems p before show ?thesis
      by (auto split: if_splits)
  qed
qed

lemma ordered_defineOwn:
  "ownKeysOrdered (map fst ps) \<Longrightarrow> ownKeysOrdered (map fst (defineOwn ps k v))"
  by (auto simp: defineOwn_def keys_overwrite ordered_insertIndex ordered_append)

lemma values_defineOwn: "(a, b) \<in> set (defineOwn ps k v) \<Longrightarrow> b = v \<or> (a, b) \<in> set ps"
  using set_overwrite [of a b k v ps]
  by (auto simp: defineOwn_def set_insertIndex split: if_splits)

lemma wellFormed_defineOwn:
  assumes "wellFormed (VObj ps)" and "wellFormed v"
  shows "wellFormed (VObj (defineOwn ps k v))"
proof -
  have "\<forall>w \<in> snd ` set (defineOwn ps k v). wellFormed w"
    using assms by (auto dest: values_defineOwn)
  with assms(1) show ?thesis
    by (simp add: ordered_defineOwn)
qed

lemma wellFormed_objSet:
  "wellFormed (VObj (fst obj)) \<Longrightarrow> wellFormed v \<Longrightarrow> wellFormed (VObj (fst (objSet obj key (v, vl))))"
  using wellFormed_defineOwn [of "fst obj" v key]
  by (cases obj; cases v) (auto simp: objSet_def simp del: wellFormed.simps)

lemma parseObjectLoop_wellFormed:
  assumes pv: "\<And>s v l r. pv s = Inr (v, l, r) \<Longrightarrow> wellFormed v"
  shows "wellFormed (VObj (fst obj)) \<Longrightarrow> parseObjectLoop pv n obj s = Inr (v, l, r) \<Longrightarrow> wellFormed v"
proof (induction n arbitrary: obj s)
  case 0
  then show ?case by simp
next
  case (Suc n)
  show ?case
  proof (cases "trim s = []")
    case True
    with Suc.prems show ?thesis by auto
  next
    case False
    with Suc.prems(2) obtain key r1 where kr: "parseKey (trim s) = Inr (key, r1)"
      by (cases "parseKey (trim s)") auto
    with False Suc.prems(2) obtain w wl r' where res: "pv r1 = Inr (w, wl, r')"
      by (cases "pv r1") auto
    let ?obj = "objSet obj key (w, wl)"
    have wf: "wellFormed (VObj (fst ?obj))"
      using Suc.prems(1) pv [OF res] by (rule wellFormed_objSet)
    have step: "parseObjectLoop pv (Suc n) obj s =
        (if startsWith (trim r') ''}'' then Inr (VObj (fst ?obj), snd ?obj, substring (trim r') 1)
         else if startsWith (trim r') '','' then parseObjectLoop pv n ?obj (trim (substring (trim r') 1))
         else if length (trim r') > 0 then Inl (ExpectedCommaOrBrace (take 30 (trim r')))
         else Inr (VObj (fst ?obj), snd ?obj, trim r'))"
      using False kr res by (simp add: Let_def)
    consider (close) "startsWith (trim r') ''}''"
      | (comma) "\<not> startsWith (trim r') ''}''" "startsWith (trim r') '',''"
      | (other) "\<not> startsWith (trim r') ''}''" "\<not> startsWith (trim r') '',''"
      by blast
    then show ?thesis
    proof cases
      case close
      with Suc.prems(2) wf show ?thesis unfolding step by auto
    next
      case comma
      with Suc.prems(2) have "parseObjectLoop pv n ?obj (trim (substring (trim r') 1)) = Inr (v, l, r)"
        unfolding step by simp
      with wf show ?thesis by (rule Suc.IH)
    next
      case other
      with Suc.prems(2) wf show ?thesis unfolding step by (auto split: if_splits)
    qed
  qed
qed

lemma parseArrayLoop_wellFormed:
  assumes pv: "\<And>s v l r. pv s = Inr (v, l, r) \<Longrightarrow> wellFormed v"
  shows "wellFormed (VArr arr) \<Longrightarrow> parseArrayLoop pv n arr s = Inr (v, l, r) \<Longrightarrow> wellFormed v"
proof (induction n arbitrary: arr s)
  case 0
  then show ?case by simp
next
  case (Suc n)
  from Suc.prems(2) obtain w wl r' where res: "pv (trim s) = Inr (w, wl, r')"
    by (cases "pv (trim s)") auto
  have wf: "wellFormed (VArr (arr @ [w]))"
    using Suc.prems(1) pv [OF res] by simp
  have step: "parseArrayLoop pv (Suc n) arr s =
      (if startsWith (trim r') '']'' then Inr (VArr (arr @ [w]), True, substring (trim r') 1)
       else if startsWith (trim r') '','' then parseArrayLoop pv n (arr @ [w]) (trim (substring (trim r') 1))
       else Inl (ExpectedCommaOrBracket (take 20 (trim r'))))"
    using res by (simp add: Let_def)
  consider (close) "startsWith (trim r') '']''"
    | (comma) "\<not> startsWith (trim r') '']''" "startsWith (trim r') '',''"
    | (other) "\<not> startsWith (trim r') '']''" "\<not> startsWith (trim r') '',''"
    by blast
  then show ?case
  proof cases
    case close
    with Suc.prems(2) wf show ?thesis unfolding step by auto
  next
    case comma
    with Suc.prems(2) have "parseArrayLoop pv n (arr @ [w]) (trim (substring (trim r') 1)) = Inr (v, l, r)"
      unfolding step by simp
    with wf show ?thesis by (rule Suc.IH)
  next
    case other
    with Suc.prems(2) show ?thesis unfolding step by simp
  qed
qed

lemma parseValue_wellFormed: "parseValue pf n s = Inr (v, l, r) \<Longrightarrow> wellFormed v"
proof (induction n arbitrary: s v l r)
  case 0
  then show ?case by simp
next
  case (Suc n)
  let ?t = "trim s"
  have pv: "\<And>s v l r. parseValue pf n s = Inr (v, l, r) \<Longrightarrow> wellFormed v"
    by (rule Suc.IH)
  consider (object) "startsWith ?t ''{''"
    | (array) "\<not> startsWith ?t ''{''" "startsWith ?t ''[''"
    | (other) "\<not> startsWith ?t ''{''" "\<not> startsWith ?t ''[''"
    by blast
  then show ?case
  proof cases
    case object
    with Suc.prems have po: "parseObject (parseValue pf n) n ?t = Inr (v, l, r)"
      by (simp add: Let_def)
    show ?thesis
    proof (cases "startsWith (trim (substring ?t 1)) ''}''")
      case True
      with po object show ?thesis by (auto simp: parseObject_def Let_def)
    next
      case False
      with po object have loop: "parseObjectLoop (parseValue pf n) n ([], True) (trim (substring ?t 1)) = Inr (v, l, r)"
        by (simp add: parseObject_def Let_def)
      show ?thesis
        by (rule parseObjectLoop_wellFormed [OF pv _ loop]) simp_all
    qed
  next
    case array
    with Suc.prems have pa: "parseArray (parseValue pf n) n ?t = Inr (v, l, r)"
      by (simp add: Let_def)
    show ?thesis
    proof (cases "startsWith (trim (substring ?t 1)) '']''")
      case True
      with pa array show ?thesis by (auto simp: parseArray_def Let_def)
    next
      case False
      with pa array have loop: "parseArrayLoop (parseValue pf n) n [] (trim (substring ?t 1)) = Inr (v, l, r)"
        by (simp add: parseArray_def Let_def)
      show ?thesis
        by (rule parseArrayLoop_wellFormed [OF pv _ loop]) simp_all
    qed
  next
    case other
    with Suc.prems show ?thesis
      by (auto simp: Let_def parseNumber_def split: if_splits sum.splits option.splits)
  qed
qed

lemma parseJson_wellFormed: "parseJson pf input = Inr v \<Longrightarrow> wellFormed v"
  by (auto simp: parseJson_def Let_def split: if_splits sum.splits simp del: parseValue.simps
        dest: parseValue_wellFormed)

lemma jsonMembers_wellFormed:
  assumes jv: "\<And>s v r. jv s = Inr (v, r) \<Longrightarrow> wellFormed v"
  shows "wellFormed (VObj props) \<Longrightarrow> jsonMembers jv n props s = Inr (v, r) \<Longrightarrow> wellFormed v"
proof (induction n arbitrary: props s)
  case 0
  then show ?case by simp
next
  case (Suc n)
  from Suc.prems(2) obtain rest where s: "s = DQ # rest"
    by (cases s) (auto split: if_splits)
  with Suc.prems(2) obtain key r1 where key: "jsonStringChars [] rest = Inr (key, r1)"
    by (cases "jsonStringChars [] rest") auto
  with s Suc.prems(2) obtain r2 where colon: "skipJsonSpace r1 = CHR '':'' # r2"
    by (cases "skipJsonSpace r1") (auto split: if_splits)
  with s key Suc.prems(2) obtain w r3 where val: "jv r2 = Inr (w, r3)"
    by (cases "jv r2") auto
  with s key colon Suc.prems(2) obtain x r4 where nxt: "skipJsonSpace r3 = x # r4"
    by (cases "skipJsonSpace r3") auto
  have wf: "wellFormed (VObj (defineOwn props key w))"
    using Suc.prems(1) jv [OF val] by (rule wellFormed_defineOwn)
  have step: "jsonMembers jv (Suc n) props s =
      (if x = CHR ''}'' then Inr (VObj (defineOwn props key w), r4)
       else if x = CHR '','' then jsonMembers jv n (defineOwn props key w) (skipJsonSpace r4)
       else Inl JsonSyntaxError)"
    using s key colon val nxt by simp
  show ?case
  proof (cases "x = CHR ''}''")
    case True
    with Suc.prems(2) wf show ?thesis unfolding step by auto
  next
    case False
    with Suc.prems(2) have "jsonMembers jv n (defineOwn props key w) (skipJsonSpace r4) = Inr (v, r)"
      unfolding step by (simp split: if_splits)
    with wf show ?thesis by (rule Suc.IH)
  qed
qed

lemma jsonElements_wellFormed:
  assumes jv: "\<And>s v r. jv s = Inr (v, r) \<Longrightarrow> wellFormed v"
  shows "wellFormed (VArr arr) \<Longrightarrow> jsonElements jv n arr s = Inr (v, r) \<Longrightarrow> wellFormed v"
proof (induction n arbitrary: arr s)
  case 0
  then show ?case by simp
next
  case (Suc n)
  from Suc.prems(2) obtain w r1 where val: "jv s = Inr (w, r1)"
    by (cases "jv s") auto
  with Suc.prems(2) obtain x r2 where nxt: "skipJsonSpace r1 = x # r2"
    by (cases "skipJsonSpace r1") auto
  have wf: "wellFormed (VArr (arr @ [w]))"
    using Suc.prems(1) jv [OF val] by simp
  have step: "jsonElements jv (Suc n) arr s =
      (if x = CHR '']'' then Inr (VArr (arr @ [w]), r2)
       else if x = CHR '','' then jsonElements jv n (arr @ [w]) r2
       else Inl JsonSyntaxError)"
    using val nxt by simp
  show ?case
  proof (cases "x = CHR '']''")
    case True
    with Suc.prems(2) wf show ?thesis unfolding step by auto
  next
    case False
    with Suc.prems(2) have "jsonElements jv n (arr @ [w]) r2 = Inr (v, r)"
      unfolding step by (simp split: if_splits)
    with wf show ?thesis by (rule Suc.IH)
  qed
qed

lemma jsonValue_wellFormed: "jsonValue pf n s = Inr (v, r) \<Longrightarrow> wellFormed v"
proof (induction n arbitrary: s v r)
  case 0
  then show ?case by simp
next
  case (Suc n)
  have jv: "\<And>s v r. jsonValue pf n s = Inr (v, r) \<Longrightarrow> wellFormed v"
    by (rule Suc.IH)
  from Suc.prems obtain c t where t: "skipJsonSpace s = c # t"
    by (cases "skipJsonSpace s") (auto simp: Let_def)
  consider (object) "c = CHR ''{''" | (array) "c = CHR ''[''" | (other) "c \<noteq> CHR ''{''" "c \<noteq> CHR ''[''"
    by blast
  then show ?case
  proof cases
    case object
    with Suc.prems t obtain d t' where d: "skipJsonSpace t = d # t'"
      by (cases "skipJsonSpace t") (auto simp: Let_def)
    show ?thesis
    proof (cases "d = CHR ''}''")
      case True
      with Suc.prems t object d show ?thesis by (auto simp: Let_def)
    next
      case False
      with Suc.prems t object d have loop: "jsonMembers (jsonValue pf n) n [] (d # t') = Inr (v, r)"
        by (simp add: Let_def)
      show ?thesis
        by (rule jsonMembers_wellFormed [OF jv _ loop]) simp_all
    qed
  next
    case array
    with Suc.prems t obtain d t' where d: "skipJsonSpace t = d # t'"
      by (cases "skipJsonSpace t") (auto simp: Let_def)
    show ?thesis
    proof (cases "d = CHR '']''")
      case True
      with Suc.prems t array d show ?thesis by (auto simp: Let_def)
    next
      case False
      with Suc.prems t array d have loop: "jsonElements (jsonValue pf n) n [] (d # t') = Inr (v, r)"
        by (simp add: Let_def)
      show ?thesis
        by (rule jsonElements_wellFormed [OF jv _ loop]) simp_all
    qed
  next
    case other
    with Suc.prems t show ?thesis
      by (auto simp: Let_def split: if_splits sum.splits option.splits)
  qed
qed

lemma parseToon_wellFormed: "parseToon pf input = Inr v \<Longrightarrow> wellFormed v"
  by (auto simp: parseToon_def JSON_parse_def split: if_splits sum.splits simp del: jsonValue.simps
        dest: jsonValue_wellFormed)

lemma map_of_overwrite: "k \<in> fst ` set ps \<Longrightarrow> map_of (overwrite k v ps) = (map_of ps)(k \<mapsto> v)"
proof (induction ps)
  case Nil
  then show ?case by simp
next
  case (Cons p ps)
  obtain k' v' where p: "p = (k', v')" by (cases p)
  show ?case
  proof (cases "k' = k")
    case True
    with p show ?thesis by (simp add: fun_eq_iff)
  next
    case False
    with Cons.prems p have "k \<in> fst ` set ps" by auto
    then have "map_of (overwrite k v ps) = (map_of ps)(k \<mapsto> v)" by (rule Cons.IH)
    with False p show ?thesis by (simp add: fun_eq_iff)
  qed
qed

lemma map_of_insertIndex:
  "k \<notin> fst ` set ps \<Longrightarrow> map_of (insertIndex k v ps) = (map_of ps)(k \<mapsto> v)"
proof (induction ps)
  case Nil
  then show ?case by simp
next
  case (Cons p ps)
  obtain k' v' where p: "p = (k', v')" by (cases p)
  from Cons.prems p have ne: "k' \<noteq> k" and "k \<notin> fst ` set ps" by auto
  then have "map_of (insertIndex k v ps) = (map_of ps)(k \<mapsto> v)" by (intro Cons.IH)
  with ne p show ?case by (simp add: fun_eq_iff)
qed

lemma map_of_defineOwn: "map_of (defineOwn ps k v) = (map_of ps)(k \<mapsto> v)"
proof -
  have "k \<notin> fst ` set ps \<Longrightarrow> map_of (ps @ [(k, v)]) = (map_of ps)(k \<mapsto> v)"
    by (force simp: map_add_def fun_eq_iff split: option.splits dest: map_of_SomeD)
  then show ?thesis
    by (simp add: defineOwn_def map_of_overwrite map_of_insertIndex del: map_of_append)
qed

lemma other_keys_insertIndex:
  "isArrayIndex k \<Longrightarrow>
   filter (\<lambda>x. \<not> isArrayIndex x) (map fst (insertIndex k v ps)) = filter (\<lambda>x. \<not> isArrayIndex x) (map fst ps)"
  by (induction ps) auto

lemma other_keys_defineOwn:
  "filter (\<lambda>x. \<not> isArrayIndex x) (map fst (defineOwn ps k v))
     = filter (\<lambda>x. \<not> isArrayIndex x) (map fst ps)
         @ (if k \<in> set (map fst ps) \<or> isArrayIndex k then [] else [k])"
  by (simp add: defineOwn_def keys_overwrite other_keys_insertIndex)

lemma overwrite_example_relaxed:
  \<open>parseJson readInt ''{"a": 1, "a": 2}'' = Inr (VObj [(''a'', VNum 2)])\<close>
  by code_simp

lemma overwrite_example_strict:
  \<open>parseToon readInt ''{"a": 1, "a": 2}'' = Inr (VObj [(''a'', VNum 2)])\<close>
  by code_simp

lemma objSet_other_key:
  "key \<noteq> ''__proto__'' \<Longrightarrow> objSet obj key val = (defineOwn (fst obj) key (fst val), snd obj)"
  by (cases obj; cases val) (simp add: objSet_def)

subsection \<open>The forms of an array in the strict serializer\<close>

lemma toToon_line_form:
  assumes "items \<noteq> []" and "\<not> isCompactArray items"
  shows "toToon ts (VArr items) indent = linePerElement ts items indent"
  using assms by (simp add: Let_def linePerElement_def)

lemma toToon_block_form:
  assumes "items \<noteq> []" and "isCompactArray items"
  shows "toToon ts (VArr items) indent =
           ''['' @ [LF] @ repeat ''  '' (indent + 1)
             @ join ('','' @ [LF] @ repeat ''  '' (indent + 1)) (map (braceBlock ts) items)
             @ [LF] @ repeat ''  '' indent @ '']''"
proof -
  have blocks: "map (\<lambda>item. ''{ '' @ join '', '' (map (\<lambda>(key, val). quoted key @ '': '' @ toToon ts val 0)
            (case item of VObj ps \<Rightarrow> ps | _ \<Rightarrow> [])) @ '' }'') items = map (braceBlock ts) items"
  proof (rule map_cong [OF refl])
    fix x assume "x \<in> set items"
    with assms(2) have "isCompactItem x" by (simp add: isCompactArray_def list_all_iff)
    then show "''{ '' @ join '', '' (map (\<lambda>(key, val). quoted key @ '': '' @ toToon ts val 0)
            (case x of VObj ps \<Rightarrow> ps | _ \<Rightarrow> [])) @ '' }'' = braceBlock ts x"
      by (rule braceBlock_eq)
  qed
  have "toToon ts (VArr items) indent =
           ''['' @ [LF] @ repeat ''  '' (indent + 1)
             @ join ('','' @ [LF] @ repeat ''  '' (indent + 1))
                 (map (\<lambda>item. ''{ '' @ join '', '' (map (\<lambda>(key, val). quoted key @ '': '' @ toToon ts val 0)
                    (case item of VObj ps \<Rightarrow> ps | _ \<Rightarrow> [])) @ '' }'') items)
             @ [LF] @ repeat ''  '' indent @ '']''"
    using assms by (simp add: Let_def)
  then show ?thesis unfolding blocks .
qed

lemma repeat_one: "repeat ''  '' (0 + 1) = ''  ''"
  by (simp add: repeat_def)

lemma repeat_zero: "repeat s 0 = []"
  by (simp add: repeat_def)

lemma inlineEntry_eq:
  "(case entry of (key, val) \<Rightarrow>
      (let keyStr = quoted key
       in case val of
            VArr xs \<Rightarrow>
              if length xs > 0 then
                (let rendered = map (\<lambda>item.
                       (case item of
                          VObj ips \<Rightarrow>
                            (let itemPairs = map (\<lambda>(k, v).
                                   (let kStr = quoted k;
                                        vStr = toToon ts v 0
                                    in kStr @ '': '' @ vStr)) ips
                             in ''{ '' @ join '', '' itemPairs @ '' }'')
                        | _ \<Rightarrow> toToon ts item 0)) xs
                 in keyStr @ '': ['' @ [LF] @ ''  ''
                      @ join ('','' @ [LF] @ ''  '') rendered
                      @ [LF] @ [] @ '']'')
              else keyStr @ '': '' @ toToon ts val 0
          | _ \<Rightarrow> keyStr @ '': '' @ toToon ts val 0)) = inlineEntry ts entry"
proof (cases entry)
  case (Pair key val)
  have items: "(\<lambda>item. case item of
                  VObj ips \<Rightarrow>
                    (let itemPairs = map (\<lambda>(k, v).
                           (let kStr = quoted k;
                                vStr = toToon ts v 0
                            in kStr @ '': '' @ vStr)) ips
                     in ''{ '' @ join '', '' itemPairs @ '' }'')
                | _ \<Rightarrow> toToon ts item 0) = inlineItem ts"
  proof (rule ext)
    fix item :: "'a value"
    show "(case item of
                  VObj ips \<Rightarrow>
                    (let itemPairs = map (\<lambda>(k, v).
                           (let kStr = quoted k;
                                vStr = toToon ts v 0
                            in kStr @ '': '' @ vStr)) ips
                     in ''{ '' @ join '', '' itemPairs @ '' }'')
                | _ \<Rightarrow> toToon ts item 0) = inlineItem ts item"
      by (cases item) (simp_all add: inlineItem_def quoted_def Let_def)
  qed
  show ?thesis
  proof (cases val)
    case (VArr xs)
    then show ?thesis
      unfolding Pair items by (simp add: inlineEntry_def Let_def quoted_def)
  qed (simp_all add: Pair inlineEntry_def Let_def quoted_def)
qed

lemma toToon_inline_form:
  assumes "props \<noteq> []" and "isCompactObject props"
  shows "toToon ts (VObj props) 0 =
           ''{'' @ [LF] @ ''  '' @ join ('','' @ [LF] @ ''  '') (map (inlineEntry ts) props) @ [LF] @ ''}''"
proof -
  have "toToon ts (VObj props) 0 =
           ''{'' @ [LF] @ ''  '' @ join ('','' @ [LF] @ ''  '')
             (map (\<lambda>entry. case entry of (key, val) \<Rightarrow>
      (let keyStr = quoted key
       in case val of
            VArr xs \<Rightarrow>
              if length xs > 0 then
                (let rendered = map (\<lambda>item.
                       (case item of
                          VObj ips \<Rightarrow>
                            (let itemPairs = map (\<lambda>(k, v).
                                   (let kStr = quoted k;
                                        vStr = toToon ts v 0
                                    in kStr @ '': '' @ vStr)) ips
                             in ''{ '' @ join '', '' itemPairs @ '' }'')
                        | _ \<Rightarrow> toToon ts item 0)) xs
                 in keyStr @ '': ['' @ [LF] @ ''  ''
                      @ join ('','' @ [LF] @ ''  '') rendered
                      @ [LF] @ [] @ '']'')
              else keyStr @ '': '' @ toToon ts val 0
          | _ \<Rightarrow> keyStr @ '': '' @ toToon ts val 0)) props) @ [LF] @ ''}''"
    using assms unfolding toToon.simps Let_def repeat_one repeat_zero by simp
  then show ?thesis unfolding inlineEntry_eq .
qed

lemma toToon_entry_form:
  assumes "props \<noteq> []" and "\<not> (isCompactObject props \<and> indent = 0)"
  shows "toToon ts (VObj props) indent =
           ''{'' @ [LF]
             @ join ('','' @ [LF])
                 (map (\<lambda>(k, v). repeat ''  '' (indent + 1) @ [DQ] @ k @ [DQ] @ '': '' @ toToon ts v (indent + 1)) props)
             @ [LF] @ repeat ''  '' indent @ ''}''"
proof -
  from assms have c: "(isCompactObject props \<and> indent = 0) = False" "(length props = 0) = False"
    by simp_all
  show ?thesis
    unfolding toToon.simps Let_def c if_False by (simp add: quoted_def)
qed

lemma not_compact_array:
  assumes "\<exists>item \<in> set items. \<forall>ps. item = VObj ps \<longrightarrow> 5 < length ps \<or> (\<exists>(k, v) \<in> set ps. \<not> isScalar v)"
  shows "\<not> isCompactArray items"
proof -
  from assms obtain item where item: "item \<in> set items"
    and no: "\<forall>ps. item = VObj ps \<longrightarrow> 5 < length ps \<or> (\<exists>(k, v) \<in> set ps. \<not> isScalar v)"
    by blast
  have "\<not> isCompactItem item"
    using no by (cases item) (auto simp: list_all_iff)
  with item show ?thesis
    by (auto simp: isCompactArray_def list_all_iff)
qed

lemma compact_array:
  assumes "\<forall>item \<in> set items. \<exists>ps. item = VObj ps \<and> length ps \<le> 5 \<and> (\<forall>(k, v) \<in> set ps. isScalar v)"
  shows "isCompactArray items"
  using assms by (auto simp: isCompactArray_def list_all_iff)

lemma compact_object:
  assumes "length props \<le> 5"
    and "\<forall>(k, v) \<in> set props. isScalar v \<or> (\<exists>xs. v = VArr xs \<and> length xs \<le> 10)"
  shows "isCompactObject props"
proof -
  have "isCompactValue v" if "(k, v) \<in> set props" for k v
  proof -
    from assms(2) that have "isScalar v \<or> (\<exists>xs. v = VArr xs \<and> length xs \<le> 10)" by blast
    then show ?thesis by (cases v) auto
  qed
  with assms(1) show ?thesis by (auto simp: isCompactObject_def list_all_iff)
qed

lemma not_compact_object:
  assumes "0 < (indent :: nat) \<or> 5 < length props
           \<or> (\<exists>(k, v) \<in> set props. \<not> isScalar v \<and> (\<forall>xs. v = VArr xs \<longrightarrow> 10 < length xs))"
  shows "\<not> (isCompactObject props \<and> indent = 0)"
proof
  assume c: "isCompactObject props \<and> indent = 0"
  with assms obtain k v where kv: "(k, v) \<in> set props"
    and no: "\<not> isScalar v \<and> (\<forall>xs. v = VArr xs \<longrightarrow> 10 < length xs)"
    by (auto simp: isCompactObject_def)
  from c kv have "isCompactValue v" by (auto simp: isCompactObject_def list_all_iff)
  with no show False by (cases v) auto
qed

subsection \<open>String literals in the two parsers\<close>

lemma hex_plain: "list_all isHexDigit h \<Longrightarrow> \<forall>c \<in> set h. c \<noteq> BSL \<and> c \<noteq> DQ"
  using isHexDigit_plain by (auto simp: list_all_iff)

lemma pieceOk_json: "list_all pieceOk ps \<Longrightarrow> list_all pieceJson ps"
proof -
  have "pieceJson p" if "pieceOk p" for p using that by (cases p) simp_all
  then show "list_all pieceOk ps \<Longrightarrow> list_all pieceJson ps" by (auto simp: list_all_iff)
qed

lemma parseStringLoop_piece:
  assumes "pieceJson p"
  shows "parseStringLoop DQ val False (pieceText p @ r) = parseStringLoop DQ (val @ relaxedChars p) False r"
proof (cases p)
  case (Plain c)
  with assms show ?thesis by (simp add: isPlain_def)
next
  case (Escape e)
  with assms show ?thesis by auto
next
  case (Unicode h)
  with assms have "list_all isHexDigit h" by simp
  then have "\<forall>c \<in> set h. c \<noteq> BSL \<and> c \<noteq> DQ" by (rule hex_plain)
  from parseStringLoop_plain [OF this, of "val @ ''u''" r]
  show ?thesis by (simp add: Unicode)
qed

lemma parseStringLoop_pieces:
  "list_all pieceJson ps \<Longrightarrow>
   parseStringLoop DQ val False (concat (map pieceText ps) @ DQ # r) = Inr (val @ relaxedString ps, r)"
proof (induction ps arbitrary: val)
  case Nil
  show ?case by (simp add: relaxedString_def)
next
  case (Cons p ps)
  then have p: "pieceJson p" and ps: "list_all pieceJson ps" by simp_all
  have "parseStringLoop DQ val False (concat (map pieceText (p # ps)) @ DQ # r)
      = parseStringLoop DQ val False (pieceText p @ (concat (map pieceText ps) @ DQ # r))"
    by simp
  also have "\<dots> = parseStringLoop DQ (val @ relaxedChars p) False (concat (map pieceText ps) @ DQ # r)"
    by (rule parseStringLoop_piece [OF p])
  also have "\<dots> = Inr ((val @ relaxedChars p) @ relaxedString ps, r)"
    by (rule Cons.IH [OF ps])
  finally show ?case by (simp add: relaxedString_def)
qed

lemma parseString_literal:
  "list_all pieceJson ps \<Longrightarrow> parseString (literalText ps @ r) = Inr (relaxedString ps, r)"
  using parseStringLoop_pieces [of ps "[]" r] by (simp add: parseString_def literalText_def)

lemma jsonStringChars_piece:
  assumes "pieceOk p"
  shows "jsonStringChars acc (pieceText p @ r) = jsonStringChars (acc @ [strictChar p]) r"
proof (cases p)
  case (Plain c)
  with assms show ?thesis by (simp add: isPlain_def)
next
  case (Escape e)
  with assms show ?thesis by auto
next
  case (Unicode h)
  with assms show ?thesis by simp
qed

lemma jsonStringChars_pieces:
  "list_all pieceOk ps \<Longrightarrow>
   jsonStringChars acc (concat (map pieceText ps) @ DQ # r) = Inr (acc @ strictString ps, r)"
proof (induction ps arbitrary: acc)
  case Nil
  show ?case by (simp add: strictString_def)
next
  case (Cons p ps)
  then have p: "pieceOk p" and ps: "list_all pieceOk ps" by simp_all
  have "jsonStringChars acc (concat (map pieceText (p # ps)) @ DQ # r)
      = jsonStringChars acc (pieceText p @ (concat (map pieceText ps) @ DQ # r))"
    by simp
  also have "\<dots> = jsonStringChars (acc @ [strictChar p]) (concat (map pieceText ps) @ DQ # r)"
    by (rule jsonStringChars_piece [OF p])
  also have "\<dots> = Inr ((acc @ [strictChar p]) @ strictString ps, r)"
    by (rule Cons.IH [OF ps])
  finally show ?case by (simp add: strictString_def)
qed



subsection \<open>Solid texts\<close>

lemma trim_solid: "solid s \<Longrightarrow> tailOk rs \<Longrightarrow> trim (s @ rs) = s @ rs"
  by (rule trim_id) (auto simp: solid_def tailOk_def split: list.splits)

lemma trim_tail: "tailOk rs \<Longrightarrow> trim rs = rs"
proof (cases rs)
  case Nil
  then show ?thesis by (simp add: trim_Nil)
next
  case (Cons c r)
  assume "tailOk rs"
  with Cons show ?thesis by (intro trim_id) (auto simp: tailOk_def isSpace_def)
qed

lemma trim_space_solid: "solid s \<Longrightarrow> tailOk rs \<Longrightarrow> trim (CHR '' '' # s @ rs) = s @ rs"
proof -
  assume s: "solid s" and t: "tailOk rs"
  have "trim (CHR '' '' # s @ rs) = trim (s @ rs)"
    by (simp add: trim_def isSpace_def)
  with trim_solid [OF s t] show ?thesis by simp
qed

lemma tailOk_close: "tailOk rs \<Longrightarrow> c = CHR '','' \<or> c = CHR ''}'' \<or> c = CHR '']'' \<Longrightarrow> tailOk (c # rs)"
  by (auto simp: tailOk_def isSpace_def split: list.splits)

lemma tailOk_more: "solid s \<Longrightarrow> tailOk rs \<Longrightarrow> tailOk ('', '' @ s @ rs)"
  by (auto simp: tailOk_def solid_def split: list.splits)

lemma solid_append: "solid a \<Longrightarrow> solid b \<Longrightarrow> solid (a @ m @ b)"
  by (auto simp: solid_def)

lemma solid_join:
  "xs \<noteq> [] \<Longrightarrow> \<forall>x \<in> set xs. solid x \<Longrightarrow> solid (join '', '' xs)"
proof (induction "'', ''" xs rule: join.induct)
  case 1
  then show ?case by simp
next
  case (2 x)
  then show ?case by simp
next
  case (3 x y ys)
  then have "solid x" and "solid (join '', '' (y # ys))" by simp_all
  then have "solid (x @ '', '' @ join '', '' (y # ys))" by (rule solid_append)
  then show ?case by simp
qed

subsection \<open>The loops of the relaxed parser on the family\<close>

lemma startsWith_hd: "startsWith (c # s) [d] = (c = d)"
  by (simp add: startsWith_def)

lemma parseArrayLoop_items:
  "items \<noteq> [] \<Longrightarrow>
   \<forall>(t, v) \<in> set items. solid t \<and>
      (\<forall>rs. tailOk rs \<longrightarrow> length (t @ rs) < N \<longrightarrow> (\<exists>l. pv (t @ rs) = Inr (v, l, rs))) \<Longrightarrow>
   tailOk rest \<Longrightarrow> length (join '', '' (map fst items) @ '']'' @ rest) < N \<Longrightarrow> length items \<le> n \<Longrightarrow>
   parseArrayLoop pv n arr (join '', '' (map fst items) @ '']'' @ rest)
     = Inr (VArr (arr @ map snd items), True, rest)"
proof (induction items arbitrary: n arr)
  case Nil
  then show ?case by simp
next
  case (Cons item items)
  obtain t v where item: "item = (t, v)" by (cases item)
  from Cons.prems(5) obtain n' where n: "n = Suc n'" and n': "length items \<le> n'"
    by (cases n) auto
  from Cons.prems(2) have t: "solid t"
    and pv: "\<And>rs. tailOk rs \<Longrightarrow> length (t @ rs) < N \<Longrightarrow> \<exists>l. pv (t @ rs) = Inr (v, l, rs)"
    by (auto simp: item)
  have closeOk: "tailOk (CHR '']'' # rest)"
    using Cons.prems(3) by (intro tailOk_close) simp_all
  show ?case
  proof (cases items)
    case Nil
    have tr: "trim (t @ CHR '']'' # rest) = t @ CHR '']'' # rest"
      by (rule trim_solid [OF t closeOk])
    from Cons.prems(4) have "length (t @ CHR '']'' # rest) < N" by (simp add: item Nil)
    from pv [OF closeOk this] obtain l where res: "pv (t @ CHR '']'' # rest) = Inr (v, l, CHR '']'' # rest)" ..
    have tr2: "trim (CHR '']'' # rest) = CHR '']'' # rest" by (rule trim_tail [OF closeOk])
    show ?thesis
      by (simp add: n item Nil tr res tr2 startsWith_def substring_def)
  next
    case (Cons item2 items2)
    let ?J = "join '', '' (map fst items)"
    have solidJ: "solid ?J"
      using Cons.prems(2) Cons by (intro solid_join) (auto simp: item)
    have inner: "tailOk ('', '' @ ?J @ CHR '']'' # rest)"
      using tailOk_more [OF solidJ closeOk] by simp
    have input: "join '', '' (map fst (item # items)) @ '']'' @ rest = t @ '', '' @ ?J @ CHR '']'' # rest"
      by (simp add: item Cons)
    have tr: "trim (t @ '', '' @ ?J @ CHR '']'' # rest) = t @ '', '' @ ?J @ CHR '']'' # rest"
      by (rule trim_solid [OF t inner])
    from Cons.prems(4) have len: "length (t @ '', '' @ ?J @ CHR '']'' # rest) < N"
      unfolding input .
    from pv [OF inner len] obtain l
      where res: "pv (t @ '', '' @ ?J @ CHR '']'' # rest) = Inr (v, l, '', '' @ ?J @ CHR '']'' # rest)" ..
    have tr2: "trim ('', '' @ ?J @ CHR '']'' # rest) = '', '' @ ?J @ CHR '']'' # rest"
      by (rule trim_tail [OF inner])
    have tr3: "trim (CHR '' '' # ?J @ CHR '']'' # rest) = ?J @ CHR '']'' # rest"
      by (rule trim_space_solid [OF solidJ closeOk])
    have IH: "parseArrayLoop pv n' (arr @ [v]) (?J @ '']'' @ rest)
                = Inr (VArr ((arr @ [v]) @ map snd items), True, rest)"
    proof (rule Cons.IH)
      show "items \<noteq> []" by (simp add: Cons)
      show "\<forall>(t, v) \<in> set items. solid t \<and>
              (\<forall>rs. tailOk rs \<longrightarrow> length (t @ rs) < N \<longrightarrow> (\<exists>l. pv (t @ rs) = Inr (v, l, rs)))"
        using Cons.prems(2) by simp
      show "tailOk rest" by (rule Cons.prems(3))
      show "length (?J @ '']'' @ rest) < N" using len by simp
      show "length items \<le> n'" by (rule n')
    qed
    have step: "parseArrayLoop pv (Suc n') arr (t @ '', '' @ ?J @ CHR '']'' # rest)
                = parseArrayLoop pv n' (arr @ [v]) (?J @ CHR '']'' # rest)"
      unfolding parseArrayLoop.simps Let_def tr res
      by (simp add: tr2 [simplified] tr3 startsWith_def substring_def)
    show ?thesis
      unfolding input n step using IH by (simp add: item)
  qed
qed

lemma parseKey_plain:
  assumes "list_all isPlain k"
  shows "parseKey (DQ # k @ DQ # CHR '':'' # x) = Inr (k, trim x)"
proof -
  from assms have plain: "\<forall>c \<in> set k. c \<noteq> BSL \<and> c \<noteq> DQ"
    by (auto simp: list_all_iff isPlain_def)
  have ps: "parseString (DQ # k @ DQ # CHR '':'' # x) = Inr (k, CHR '':'' # x)"
    using parseStringLoop_plain [OF plain, of "[]" "DQ # CHR '':'' # x"]
    by (simp add: parseString_def)
  have tr: "trim (CHR '':'' # x) = CHR '':'' # rtrim x"
    using rtrim_append_nonspace [of "CHR '':''" "[]" x]
    by (simp add: trim_rtrim colon_nonspace)
  show ?thesis
    by (simp add: parseKey_def startsWith_def ps tr substring_def trim_rtrim_absorb)
qed

lemma parseKey_entry:
  assumes "list_all isPlain k" and "solid t" and "tailOk rs"
  shows "parseKey (entryText (k, t) @ rs) = Inr (k, t @ rs)"
proof -
  have "parseKey (DQ # k @ DQ # CHR '':'' # (CHR '' '' # t @ rs)) = Inr (k, trim (CHR '' '' # t @ rs))"
    by (rule parseKey_plain [OF assms(1)])
  then show ?thesis
    by (simp add: entryText_def trim_space_solid [OF assms(2,3)])
qed

lemma solid_entry: "solid t \<Longrightarrow> solid (entryText (k, t))"
  by (auto simp: solid_def entryText_def isSpace_def)

lemma storeAll_Cons: "storeAll props ((k, v) # es) = storeAll (defineOwn props k v) es"
  by (simp add: storeAll_def)

lemma storeAll_Nil: "storeAll props [] = props"
  by (simp add: storeAll_def)

lemma parseObjectLoop_entries:
  "es \<noteq> [] \<Longrightarrow>
   \<forall>(k, t, v) \<in> set es. list_all isPlain k \<and> k \<noteq> ''__proto__'' \<and> solid t \<and>
      (\<forall>rs. tailOk rs \<longrightarrow> length (t @ rs) < N \<longrightarrow> (\<exists>l. pv (t @ rs) = Inr (v, l, rs))) \<Longrightarrow>
   tailOk rest \<Longrightarrow>
   length (join '', '' (map (\<lambda>(k, t, v). entryText (k, t)) es) @ ''}'' @ rest) < N \<Longrightarrow>
   length es \<le> n \<Longrightarrow>
   parseObjectLoop pv n (props, linked) (join '', '' (map (\<lambda>(k, t, v). entryText (k, t)) es) @ ''}'' @ rest)
     = Inr (VObj (storeAll props (map (\<lambda>(k, t, v). (k, v)) es)), linked, rest)"
proof (induction es arbitrary: n props)
  case Nil
  then show ?case by simp
next
  case (Cons e es)
  obtain k t v where e: "e = (k, t, v)" by (cases e)
  from Cons.prems(5) obtain n' where n: "n = Suc n'" and n': "length es \<le> n'"
    by (cases n) auto
  from Cons.prems(2) have k: "list_all isPlain k" and kp: "k \<noteq> ''__proto__''" and t: "solid t"
    and pv: "\<And>rs. tailOk rs \<Longrightarrow> length (t @ rs) < N \<Longrightarrow> \<exists>l. pv (t @ rs) = Inr (v, l, rs)"
    by (auto simp: e)
  have closeOk: "tailOk (CHR ''}'' # rest)"
    using Cons.prems(3) by (intro tailOk_close) simp_all
  have se: "solid (entryText (k, t))" by (rule solid_entry [OF t])
  have ne: "entryText (k, t) @ x \<noteq> []" for x by (simp add: entryText_def)
  have store: "objSet (props, linked) k (v, l) = (defineOwn props k v, linked)" for l
    using kp by (simp add: objSet_def)
  show ?case
  proof (cases es)
    case Nil
    let ?r = "CHR ''}'' # rest"
    have tr: "trim (entryText (k, t) @ ?r) = entryText (k, t) @ ?r"
      by (rule trim_solid [OF se closeOk])
    have key: "parseKey (entryText (k, t) @ ?r) = Inr (k, t @ ?r)"
      by (rule parseKey_entry [OF k t closeOk])
    from Cons.prems(4) have "length (t @ ?r) < N" by (simp add: e Nil entryText_def)
    from pv [OF closeOk this] obtain l where res: "pv (t @ ?r) = Inr (v, l, ?r)" ..
    have tr2: "trim ?r = ?r" by (rule trim_tail [OF closeOk])
    have "parseObjectLoop pv (Suc n') (props, linked) (entryText (k, t) @ ?r)
            = Inr (VObj (defineOwn props k v), linked, rest)"
      unfolding parseObjectLoop.simps Let_def tr key
      by (simp add: ne res store tr2 startsWith_def substring_def)
    then show ?thesis
      by (simp add: n e Nil storeAll_Cons storeAll_Nil)
  next
    case (Cons e2 es2)
    let ?J = "join '', '' (map (\<lambda>(k, t, v). entryText (k, t)) es)"
    let ?r = "'', '' @ ?J @ CHR ''}'' # rest"
    have solidJ: "solid ?J"
      using Cons.prems(2) Cons by (intro solid_join) (auto simp: e intro: solid_entry)
    have inner: "tailOk ?r"
      using tailOk_more [OF solidJ closeOk] by simp
    have input: "join '', '' (map (\<lambda>(k, t, v). entryText (k, t)) (e # es)) @ ''}'' @ rest
                   = entryText (k, t) @ ?r"
      by (simp add: e Cons)
    have tr: "trim (entryText (k, t) @ ?r) = entryText (k, t) @ ?r"
      by (rule trim_solid [OF se inner])
    have key: "parseKey (entryText (k, t) @ ?r) = Inr (k, t @ ?r)"
      by (rule parseKey_entry [OF k t inner])
    from Cons.prems(4) have len: "length (entryText (k, t) @ ?r) < N"
      unfolding input .
    then have "length (t @ ?r) < N" by (simp add: entryText_def)
    from pv [OF inner this] obtain l where res: "pv (t @ ?r) = Inr (v, l, ?r)" ..
    have tr2: "trim ?r = ?r" by (rule trim_tail [OF inner])
    have tr3: "trim (CHR '' '' # ?J @ CHR ''}'' # rest) = ?J @ CHR ''}'' # rest"
      by (rule trim_space_solid [OF solidJ closeOk])
    have IH: "parseObjectLoop pv n' (defineOwn props k v, linked) (?J @ ''}'' @ rest)
                = Inr (VObj (storeAll (defineOwn props k v) (map (\<lambda>(k, t, v). (k, v)) es)), linked, rest)"
    proof (rule Cons.IH)
      show "es \<noteq> []" by (simp add: Cons)
      show "\<forall>(k, t, v) \<in> set es. list_all isPlain k \<and> k \<noteq> ''__proto__'' \<and> solid t \<and>
              (\<forall>rs. tailOk rs \<longrightarrow> length (t @ rs) < N \<longrightarrow> (\<exists>l. pv (t @ rs) = Inr (v, l, rs)))"
        using Cons.prems(2) by simp
      show "tailOk rest" by (rule Cons.prems(3))
      show "length (?J @ ''}'' @ rest) < N" using len by simp
      show "length es \<le> n'" by (rule n')
    qed
    have step: "parseObjectLoop pv (Suc n') (props, linked) (entryText (k, t) @ ?r)
                = parseObjectLoop pv n' (defineOwn props k v, linked) (?J @ CHR ''}'' # rest)"
      unfolding parseObjectLoop.simps Let_def tr key
      by (simp add: ne res [simplified] store tr2 [simplified] tr3 startsWith_def substring_def)
    show ?thesis
      unfolding input n step using IH by (simp add: e storeAll_Cons)
  qed
qed

subsection \<open>Scalars in the relaxed parser\<close>

lemma isDigit_nonspace: "isDigit c \<Longrightarrow> \<not> isSpace c"
  by (auto simp: isDigit_def isSpace_def)

lemma isDigit_nonclose: "isDigit c \<Longrightarrow> c \<noteq> CHR '']'' \<and> c \<noteq> CHR ''}''"
  by (auto simp: isDigit_def)

lemma docText_shape:
  assumes "docOk d"
  shows "solid (docText d) \<and> hd (docText d) \<noteq> CHR '']'' \<and> hd (docText d) \<noteq> CHR ''}''"
proof (cases d)
  case (DNat ds)
  with assms have ne: "ds \<noteq> []" and dig: "list_all isDigit ds" by (simp_all add: isNatural_def)
  from ne dig have "isDigit (hd ds)" and "isDigit (last ds)" by (auto simp: list_all_iff)
  then have "\<not> isSpace (hd ds)" and "\<not> isSpace (last ds)"
    and "hd ds \<noteq> CHR '']''" and "hd ds \<noteq> CHR ''}''"
    using isDigit_nonspace [of "hd ds"] isDigit_nonspace [of "last ds"] isDigit_nonclose [of "hd ds"]
    by simp_all
  with ne show ?thesis
    by (simp add: DNat solid_def)
next
  case DNull
  show ?thesis by (simp add: DNull solid_def isSpace_def)
next
  case (DBool b)
  show ?thesis by (simp add: DBool solid_def isSpace_def)
next
  case (DStr ps)
  show ?thesis by (simp add: DStr solid_def isSpace_def literalText_def)
next
  case (DArr ds)
  show ?thesis by (simp add: DArr solid_def isSpace_def)
next
  case (DObj es)
  show ?thesis by (simp add: DObj solid_def isSpace_def)
qed

lemma length_join: "\<forall>x \<in> set xs. x \<noteq> [] \<Longrightarrow> length xs \<le> length (join sep xs)"
proof (induction sep xs rule: join.induct)
  case (3 sep x y ys)
  then have "x \<noteq> []" and "length (y # ys) \<le> length (join sep (y # ys))" by simp_all
  then have "Suc (length (y # ys)) \<le> length x + length (join sep (y # ys))"
    by (cases x) simp_all
  then show ?case by simp
qed (simp_all add: Suc_le_eq)

lemma takeWhile_digits_tail:
  assumes "list_all isDigit d" and "tailOk rs"
  shows "takeWhile isDigit (d @ rs) = d"
proof -
  have "takeWhile isDigit rs = []"
    using assms(2) by (cases rs) (auto simp: tailOk_def isDigit_def)
  with assms(1) show ?thesis by (simp add: takeWhile_append list_all_iff)
qed

lemma matchFraction_tail: "tailOk rs \<Longrightarrow> matchFraction rs = []"
  by (cases rs) (auto simp: matchFraction_def tailOk_def)

lemma matchExponent_tail: "tailOk rs \<Longrightarrow> matchExponent rs = []"
  by (cases rs) (auto simp: matchExponent_def tailOk_def)

lemma matchNumber_natural:
  assumes "isNatural d" and "tailOk rs"
  shows "matchNumber (d @ rs) = Some d"
proof -
  from assms(1) obtain c cs where d: "d = c # cs" and c: "isDigit c" and dig: "list_all isDigit d"
    by (cases d) (auto simp: isNatural_def)
  from c have nosign: "\<not> startsWith (d @ rs) ''-''"
    by (auto simp: startsWith_def d isDigit_def)
  have tw: "takeWhile isDigit (d @ rs) = d" by (rule takeWhile_digits_tail [OF dig assms(2)])
  have ne: "d \<noteq> []" by (simp add: d)
  show ?thesis
    unfolding matchNumber_def Let_def
    by (simp add: nosign ne tw matchFraction_tail [OF assms(2)] matchExponent_tail [OF assms(2)])
qed

lemma parseValue_closed:
  assumes "trim s = s"
  shows "parseValue pf (Suc n) s =
     (if startsWith s ''{'' then parseObject (parseValue pf n) n s
      else if startsWith s ''['' then parseArray (parseValue pf n) n s
      else if startsWith s [DQ] \<or> startsWith s [SQ] then
        (case parseString s of Inl e \<Rightarrow> Inl e | Inr (x, r) \<Rightarrow> Inr (VStr x, True, r))
      else if matchNumber s \<noteq> None then parseNumber pf s
      else if startsWith s ''true'' then Inr (VBool True, True, substring s 4)
      else if startsWith s ''false'' then Inr (VBool False, True, substring s 5)
      else if startsWith s ''null'' then Inr (VNull, True, substring s 4)
      else Inl (UnexpectedToken (take 20 s)))"
  unfolding parseValue.simps Let_def assms ..

lemma parseValue_null:
  assumes "tailOk rs"
  shows "parseValue pf (Suc n) (''null'' @ rs) = Inr (VNull, True, rs)"
proof -
  have "solid ''null''" by (simp add: solid_def isSpace_def)
  then have tr: "trim (''null'' @ rs) = ''null'' @ rs" using assms by (rule trim_solid)
  have mn: "matchNumber (''null'' @ rs) = None"
    by (simp add: matchNumber_def startsWith_def isDigit_def)
  show ?thesis
    unfolding parseValue_closed [OF tr] mn by (simp add: startsWith_def substring_def)
qed

lemma parseValue_true:
  assumes "tailOk rs"
  shows "parseValue pf (Suc n) (''true'' @ rs) = Inr (VBool True, True, rs)"
proof -
  have "solid ''true''" by (simp add: solid_def isSpace_def)
  then have tr: "trim (''true'' @ rs) = ''true'' @ rs" using assms by (rule trim_solid)
  have mn: "matchNumber (''true'' @ rs) = None"
    by (simp add: matchNumber_def startsWith_def isDigit_def)
  show ?thesis
    unfolding parseValue_closed [OF tr] mn by (simp add: startsWith_def substring_def)
qed

lemma parseValue_false:
  assumes "tailOk rs"
  shows "parseValue pf (Suc n) (''false'' @ rs) = Inr (VBool False, True, rs)"
proof -
  have "solid ''false''" by (simp add: solid_def isSpace_def)
  then have tr: "trim (''false'' @ rs) = ''false'' @ rs" using assms by (rule trim_solid)
  have mn: "matchNumber (''false'' @ rs) = None"
    by (simp add: matchNumber_def startsWith_def isDigit_def)
  show ?thesis
    unfolding parseValue_closed [OF tr] mn by (simp add: startsWith_def substring_def)
qed

lemma parseValue_natural:
  assumes "isNatural ds" and "tailOk rs"
  shows "parseValue pf (Suc n) (ds @ rs) = Inr (VNum (pf ds), True, rs)"
proof -
  from assms(1) obtain c cs where ds: "ds = c # cs" and c: "isDigit c" and dig: "list_all isDigit ds"
    by (cases ds) (auto simp: isNatural_def)
  from dig have "isDigit (last ds)" by (auto simp: list_all_iff ds)
  with c have "solid ds" using isDigit_nonspace by (auto simp: solid_def ds)
  then have tr: "trim (ds @ rs) = ds @ rs" using assms(2) by (rule trim_solid)
  have mn: "matchNumber (ds @ rs) = Some ds" by (rule matchNumber_natural [OF assms])
  from c have sw: "\<not> startsWith (ds @ rs) ''{''" "\<not> startsWith (ds @ rs) ''[''"
    "\<not> startsWith (ds @ rs) [DQ]" "\<not> startsWith (ds @ rs) [SQ]"
    by (auto simp: isDigit_def startsWith_def ds)
  show ?thesis
    unfolding parseValue_closed [OF tr] by (simp add: sw mn parseNumber_def substring_def)
qed

lemma parseValue_literal:
  assumes "list_all pieceOk ps" and "tailOk rs"
  shows "parseValue pf (Suc n) (literalText ps @ rs) = Inr (VStr (relaxedString ps), True, rs)"
proof -
  have "solid (literalText ps)" by (simp add: solid_def literalText_def isSpace_def)
  then have tr: "trim (literalText ps @ rs) = literalText ps @ rs" using assms(2) by (rule trim_solid)
  have ps: "parseString (literalText ps @ rs) = Inr (relaxedString ps, rs)"
    by (rule parseString_literal [OF pieceOk_json [OF assms(1)]])
  have sw: "startsWith (literalText ps @ rs) [DQ]"
    "\<not> startsWith (literalText ps @ rs) ''{''" "\<not> startsWith (literalText ps @ rs) ''[''"
    by (simp_all add: literalText_def startsWith_def)
  show ?thesis
    unfolding parseValue_closed [OF tr] by (simp add: ps sw)
qed

subsection \<open>Arrays and objects in the relaxed parser\<close>

lemma docOk_elements: "docOk (DArr ds) \<Longrightarrow> d \<in> set ds \<Longrightarrow> docOk d"
  by (auto simp: list_all_iff)

lemma docOk_entries: "docOk (DObj es) \<Longrightarrow> (k, d) \<in> set es \<Longrightarrow> list_all isPlain k \<and> docOk d"
  by (force simp: list_all_iff)

lemma noProto_elements: "noProto (DArr ds) \<Longrightarrow> d \<in> set ds \<Longrightarrow> noProto d"
  by (auto simp: list_all_iff)

lemma noProto_entries: "noProto (DObj es) \<Longrightarrow> (k, d) \<in> set es \<Longrightarrow> k \<noteq> ''__proto__'' \<and> noProto d"
  by (force simp: list_all_iff)

lemma parseArray_elements:
  assumes items: "\<forall>(t, v) \<in> set items. solid t \<and> hd t \<noteq> CHR '']'' \<and>
      (\<forall>rs. tailOk rs \<longrightarrow> length (t @ rs) < n \<longrightarrow> (\<exists>l. pv (t @ rs) = Inr (v, l, rs)))"
    and rest: "tailOk rest"
    and len: "length (''['' @ join '', '' (map fst items) @ '']'' @ rest) \<le> n"
  shows "parseArray pv n (''['' @ join '', '' (map fst items) @ '']'' @ rest)
           = Inr (VArr (map snd items), True, rest)"
proof (cases "items = []")
  case True
  have closeOk: "tailOk (CHR '']'' # rest)"
    using rest by (intro tailOk_close) simp_all
  show ?thesis
    by (simp add: True parseArray_def startsWith_def substring_def trim_tail [OF closeOk])
next
  case False
  let ?J = "join '', '' (map fst items)"
  have closeOk: "tailOk (CHR '']'' # rest)"
    using rest by (intro tailOk_close) simp_all
  have solidJ: "solid ?J"
    using items False by (intro solid_join) auto
  from False obtain t v items' where first: "items = (t, v) # items'"
    by (cases items) auto
  with items have "solid t" and "hd t \<noteq> CHR '']''" by auto
  then have "hd ?J \<noteq> CHR '']''"
    by (cases items') (auto simp: first solid_def)
  moreover from solidJ have "?J \<noteq> []" by (simp add: solid_def)
  ultimately have nc: "\<not> startsWith (?J @ CHR '']'' # rest) '']''"
    by (cases ?J) (auto simp: startsWith_def)
  have tr: "trim (?J @ CHR '']'' # rest) = ?J @ CHR '']'' # rest"
    by (rule trim_solid [OF solidJ closeOk])
  have ne: "\<forall>x \<in> set (map fst items). x \<noteq> []"
    using items by (auto simp: solid_def)
  have count: "length items \<le> n"
    using length_join [OF ne, of "'', ''"] len by simp
  have loop: "parseArrayLoop pv n [] (?J @ '']'' @ rest) = Inr (VArr ([] @ map snd items), True, rest)"
  proof (rule parseArrayLoop_items [where N = n])
    show "items \<noteq> []" by (rule False)
    show "\<forall>(t, v) \<in> set items. solid t \<and>
            (\<forall>rs. tailOk rs \<longrightarrow> length (t @ rs) < n \<longrightarrow> (\<exists>l. pv (t @ rs) = Inr (v, l, rs)))"
      using items by auto
    show "tailOk rest" by (rule rest)
    show "length (?J @ '']'' @ rest) < n" using len by simp
    show "length items \<le> n" by (rule count)
  qed
  show ?thesis
    using nc loop by (simp add: parseArray_def startsWith_def substring_def tr)
qed

lemma parseObject_entries:
  assumes es: "\<forall>(k, t, v) \<in> set es. list_all isPlain k \<and> k \<noteq> ''__proto__'' \<and> solid t \<and>
      (\<forall>rs. tailOk rs \<longrightarrow> length (t @ rs) < n \<longrightarrow> (\<exists>l. pv (t @ rs) = Inr (v, l, rs)))"
    and rest: "tailOk rest"
    and len: "length (''{'' @ join '', '' (map (\<lambda>(k, t, v). entryText (k, t)) es) @ ''}'' @ rest) \<le> n"
  shows "parseObject pv n (''{'' @ join '', '' (map (\<lambda>(k, t, v). entryText (k, t)) es) @ ''}'' @ rest)
           = Inr (VObj (storeAll [] (map (\<lambda>(k, t, v). (k, v)) es)), True, rest)"
proof (cases "es = []")
  case True
  have closeOk: "tailOk (CHR ''}'' # rest)"
    using rest by (intro tailOk_close) simp_all
  show ?thesis
    by (simp add: True parseObject_def startsWith_def substring_def trim_tail [OF closeOk] storeAll_Nil)
next
  case False
  let ?J = "join '', '' (map (\<lambda>(k, t, v). entryText (k, t)) es)"
  have closeOk: "tailOk (CHR ''}'' # rest)"
    using rest by (intro tailOk_close) simp_all
  have solidJ: "solid ?J"
    using es False by (intro solid_join) (auto intro: solid_entry)
  from False obtain k t v es' where first: "es = (k, t, v) # es'"
    by (cases es) auto
  have "hd ?J = DQ"
    by (cases es') (auto simp: first entryText_def)
  moreover from solidJ have "?J \<noteq> []" by (simp add: solid_def)
  ultimately have nc: "\<not> startsWith (?J @ CHR ''}'' # rest) ''}''"
    by (cases ?J) (auto simp: startsWith_def)
  have tr: "trim (?J @ CHR ''}'' # rest) = ?J @ CHR ''}'' # rest"
    by (rule trim_solid [OF solidJ closeOk])
  have ne: "\<forall>x \<in> set (map (\<lambda>(k, t, v). entryText (k, t)) es). x \<noteq> []"
    by (auto simp: entryText_def)
  have count: "length es \<le> n"
    using length_join [OF ne, of "'', ''"] len by simp
  have loop: "parseObjectLoop pv n ([], True) (?J @ ''}'' @ rest)
                = Inr (VObj (storeAll [] (map (\<lambda>(k, t, v). (k, v)) es)), True, rest)"
  proof (rule parseObjectLoop_entries [where N = n])
    show "es \<noteq> []" by (rule False)
    show "\<forall>(k, t, v) \<in> set es. list_all isPlain k \<and> k \<noteq> ''__proto__'' \<and> solid t \<and>
            (\<forall>rs. tailOk rs \<longrightarrow> length (t @ rs) < n \<longrightarrow> (\<exists>l. pv (t @ rs) = Inr (v, l, rs)))"
      by (rule es)
    show "tailOk rest" by (rule rest)
    show "length (?J @ ''}'' @ rest) < n" using len by simp
    show "length es \<le> n" by (rule count)
  qed
  show ?thesis
    using nc loop by (simp add: parseObject_def startsWith_def substring_def tr)
qed

subsection \<open>The relaxed parser on the family\<close>

lemma parseValue_doc:
  "docOk d \<Longrightarrow> noProto d \<Longrightarrow> tailOk rs \<Longrightarrow> length (docText d @ rs) < n \<Longrightarrow>
   parseValue pf n (docText d @ rs) = Inr (docValue relaxedString pf d, True, rs)"
proof (induction d arbitrary: n rs)
  case DNull
  then obtain n' where n: "n = Suc n'" by (cases n) auto
  show ?case
    using parseValue_null [OF DNull.prems(3), of pf n'] by (simp add: n del: parseValue.simps)
next
  case (DBool b)
  then obtain n' where n: "n = Suc n'" by (cases n) auto
  show ?case
    using parseValue_true [OF DBool.prems(3), of pf n'] parseValue_false [OF DBool.prems(3), of pf n']
    by (cases b) (simp_all add: n del: parseValue.simps)
next
  case (DNat ds)
  then obtain n' where n: "n = Suc n'" by (cases n) auto
  from DNat.prems(1) have "isNatural ds" by simp
  from parseValue_natural [OF this DNat.prems(3), of pf n'] show ?case
    by (simp add: n del: parseValue.simps)
next
  case (DStr ps)
  then obtain n' where n: "n = Suc n'" by (cases n) auto
  from DStr.prems(1) have "list_all pieceOk ps" by simp
  from parseValue_literal [OF this DStr.prems(3), of pf n'] show ?case
    by (simp add: n del: parseValue.simps)
next
  case (DArr ds)
  from DArr.prems(4) obtain n' where n: "n = Suc n'" by (cases n) auto
  let ?items = "map (\<lambda>d. (docText d, docValue relaxedString pf d)) ds"
  have firsts: "map fst ?items = map docText ds" and seconds: "map snd ?items = map (docValue relaxedString pf) ds"
    by (simp_all add: comp_def)
  have input: "docText (DArr ds) @ rs = ''['' @ join '', '' (map fst ?items) @ '']'' @ rs"
    unfolding firsts by simp
  from docText_shape [OF DArr.prems(1)] have "solid (docText (DArr ds))" by simp
  then have tr: "trim (docText (DArr ds) @ rs) = docText (DArr ds) @ rs"
    using DArr.prems(3) by (rule trim_solid)
  have items: "\<forall>(t, v) \<in> set ?items. solid t \<and> hd t \<noteq> CHR '']'' \<and>
      (\<forall>rs. tailOk rs \<longrightarrow> length (t @ rs) < n' \<longrightarrow> (\<exists>l. parseValue pf n' (t @ rs) = Inr (v, l, rs)))"
  proof -
    have "solid (docText d) \<and> hd (docText d) \<noteq> CHR '']'' \<and>
      (\<forall>rs. tailOk rs \<longrightarrow> length (docText d @ rs) < n' \<longrightarrow>
         (\<exists>l. parseValue pf n' (docText d @ rs) = Inr (docValue relaxedString pf d, l, rs)))"
      if d: "d \<in> set ds" for d
    proof -
      have ok: "docOk d" by (rule docOk_elements [OF DArr.prems(1) d])
      have np: "noProto d" by (rule noProto_elements [OF DArr.prems(2) d])
      from DArr.IH [OF d ok np] docText_shape [OF ok] show ?thesis by blast
    qed
    then show ?thesis by simp
  qed
  have len: "length (''['' @ join '', '' (map fst ?items) @ '']'' @ rs) \<le> n'"
    using DArr.prems(4) unfolding n input by simp
  have arr: "parseArray (parseValue pf n') n' (''['' @ join '', '' (map fst ?items) @ '']'' @ rs)
          = Inr (VArr (map snd ?items), True, rs)"
    by (rule parseArray_elements [OF items DArr.prems(3) len])
  have sw: "\<not> startsWith (docText (DArr ds) @ rs) ''{''" "startsWith (docText (DArr ds) @ rs) ''[''"
    by (simp_all add: startsWith_def)
  show ?case
    unfolding n parseValue_closed [OF tr] using arr sw unfolding input seconds by simp
next
  case (DObj es)
  from DObj.prems(4) obtain n' where n: "n = Suc n'" by (cases n) auto
  let ?es = "map (\<lambda>(k, d). (k, docText d, docValue relaxedString pf d)) es"
  have keys: "map (\<lambda>(k, t, v). entryText (k, t)) ?es = map entryText (map (map_prod id docText) es)"
    and vals: "map (\<lambda>(k, t, v). (k, v)) ?es = map (map_prod id (docValue relaxedString pf)) es"
    by (simp_all add: comp_def case_prod_beta map_prod_def)
  have input: "docText (DObj es) @ rs = ''{'' @ join '', '' (map (\<lambda>(k, t, v). entryText (k, t)) ?es) @ ''}'' @ rs"
    unfolding keys by simp
  from docText_shape [OF DObj.prems(1)] have "solid (docText (DObj es))" by simp
  then have tr: "trim (docText (DObj es) @ rs) = docText (DObj es) @ rs"
    using DObj.prems(3) by (rule trim_solid)
  have entries: "\<forall>(k, t, v) \<in> set ?es. list_all isPlain k \<and> k \<noteq> ''__proto__'' \<and> solid t \<and>
      (\<forall>rs. tailOk rs \<longrightarrow> length (t @ rs) < n' \<longrightarrow> (\<exists>l. parseValue pf n' (t @ rs) = Inr (v, l, rs)))"
  proof -
    have "list_all isPlain k \<and> k \<noteq> ''__proto__'' \<and> solid (docText d) \<and>
      (\<forall>rs. tailOk rs \<longrightarrow> length (docText d @ rs) < n' \<longrightarrow>
         (\<exists>l. parseValue pf n' (docText d @ rs) = Inr (docValue relaxedString pf d, l, rs)))"
      if kd: "(k, d) \<in> set es" for k d
    proof -
      from docOk_entries [OF DObj.prems(1) kd] have k: "list_all isPlain k" and ok: "docOk d" by simp_all
      from noProto_entries [OF DObj.prems(2) kd] have kp: "k \<noteq> ''__proto__''" and np: "noProto d" by simp_all
      have "d \<in> Basic_BNFs.snds (k, d)" by simp
      from DObj.IH [OF kd this ok np] docText_shape [OF ok] k kp show ?thesis by blast
    qed
    then show ?thesis by auto
  qed
  have len: "length (''{'' @ join '', '' (map (\<lambda>(k, t, v). entryText (k, t)) ?es) @ ''}'' @ rs) \<le> n'"
    using DObj.prems(4) unfolding n input by simp
  have obj: "parseObject (parseValue pf n') n' (''{'' @ join '', '' (map (\<lambda>(k, t, v). entryText (k, t)) ?es) @ ''}'' @ rs)
          = Inr (VObj (storeAll [] (map (\<lambda>(k, t, v). (k, v)) ?es)), True, rs)"
    by (rule parseObject_entries [OF entries DObj.prems(3) len])
  have sw: "startsWith (docText (DObj es) @ rs) ''{''"
    by (simp add: startsWith_def)
  show ?case
    unfolding n parseValue_closed [OF tr] using obj sw unfolding input vals by simp
qed

lemma parseJson_doc:
  assumes "docOk d" and "noProto d"
  shows "parseJson pf (docText d) = Inr (docValue relaxedString pf d)"
proof -
  from docText_shape [OF assms(1)] have s: "solid (docText d)" by simp
  have t: "tailOk []" by (simp add: tailOk_def)
  from trim_solid [OF s t] have tr: "trim (docText d) = docText d" by simp
  from s have ne: "docText d \<noteq> []" by (simp add: solid_def)
  have "parseValue pf (Suc (length (docText d))) (docText d @ []) = Inr (docValue relaxedString pf d, True, [])"
    by (rule parseValue_doc [OF assms t]) simp
  then show ?thesis
    unfolding parseJson_def Let_def tr using ne by (simp add: trim_Nil del: parseValue.simps)
qed

subsection \<open>The loops of the strict parser on the family\<close>

lemma skipJsonSpace_tail: "tailOk rs \<Longrightarrow> skipJsonSpace rs = rs"
  by (cases rs) (auto simp: skipJsonSpace_def tailOk_def isJsonSpace_def)

lemma isSpace_json: "isJsonSpace c \<Longrightarrow> isSpace c"
  by (auto simp: isJsonSpace_def isSpace_def)

lemma skipJsonSpace_solid: "solid s \<Longrightarrow> skipJsonSpace (s @ rs) = s @ rs"
  using isSpace_json by (cases s) (auto simp: skipJsonSpace_def solid_def)

lemma skipJsonSpace_space: "skipJsonSpace (CHR '' '' # s) = skipJsonSpace s"
  by (simp add: skipJsonSpace_def isJsonSpace_def)

lemma jsonValue_space: "jsonValue pf n (CHR '' '' # s) = jsonValue pf n s"
  by (cases n) (simp_all add: skipJsonSpace_space)

lemma jsonElements_space:
  "\<forall>x. jv (CHR '' '' # x) = jv x \<Longrightarrow> jsonElements jv n arr (CHR '' '' # s) = jsonElements jv n arr s"
  by (cases n) simp_all

lemma jsonElements_items:
  "items \<noteq> [] \<Longrightarrow>
   \<forall>x. jv (CHR '' '' # x) = jv x \<Longrightarrow>
   \<forall>(t, v) \<in> set items. solid t \<and> (\<forall>rs. tailOk rs \<longrightarrow> jv (t @ rs) = Inr (v, rs)) \<Longrightarrow>
   tailOk rest \<Longrightarrow> length items \<le> n \<Longrightarrow>
   jsonElements jv n arr (join '', '' (map fst items) @ '']'' @ rest)
     = Inr (VArr (arr @ map snd items), rest)"
proof (induction items arbitrary: n arr)
  case Nil
  then show ?case by simp
next
  case (Cons item items)
  obtain t v where item: "item = (t, v)" by (cases item)
  from Cons.prems(5) obtain n' where n: "n = Suc n'" and n': "length items \<le> n'"
    by (cases n) auto
  from Cons.prems(3) have t: "solid t"
    and jv: "\<And>rs. tailOk rs \<Longrightarrow> jv (t @ rs) = Inr (v, rs)"
    by (auto simp: item)
  have closeOk: "tailOk (CHR '']'' # rest)"
    using Cons.prems(4) by (intro tailOk_close) simp_all
  show ?case
  proof (cases items)
    case Nil
    have res: "jv (t @ CHR '']'' # rest) = Inr (v, CHR '']'' # rest)" by (rule jv [OF closeOk])
    have sk: "skipJsonSpace (CHR '']'' # rest) = CHR '']'' # rest" by (rule skipJsonSpace_tail [OF closeOk])
    show ?thesis
      by (simp add: n item Nil res sk)
  next
    case (Cons item2 items2)
    let ?J = "join '', '' (map fst items)"
    have solidJ: "solid ?J"
      using Cons.prems(3) Cons by (intro solid_join) (auto simp: item)
    have inner: "tailOk ('', '' @ ?J @ CHR '']'' # rest)"
      using tailOk_more [OF solidJ closeOk] by simp
    have input: "join '', '' (map fst (item # items)) @ '']'' @ rest = t @ '', '' @ ?J @ CHR '']'' # rest"
      by (simp add: item Cons)
    have res: "jv (t @ '', '' @ ?J @ CHR '']'' # rest) = Inr (v, '', '' @ ?J @ CHR '']'' # rest)"
      by (rule jv [OF inner])
    have sk: "skipJsonSpace ('', '' @ ?J @ CHR '']'' # rest) = '', '' @ ?J @ CHR '']'' # rest"
      by (rule skipJsonSpace_tail [OF inner])
    have IH: "jsonElements jv n' (arr @ [v]) (?J @ '']'' @ rest)
                = Inr (VArr ((arr @ [v]) @ map snd items), rest)"
      using Cons.prems(2,3,4) n' Cons by (intro Cons.IH) simp_all
    have step: "jsonElements jv (Suc n') arr (t @ '', '' @ ?J @ CHR '']'' # rest)
                = jsonElements jv n' (arr @ [v]) (?J @ CHR '']'' # rest)"
      unfolding jsonElements.simps res
      by (simp add: sk [simplified] jsonElements_space [OF Cons.prems(2)])
    show ?thesis
      unfolding input n step using IH by (simp add: item)
  qed
qed

lemma jsonStringChars_plain:
  "list_all isPlain k \<Longrightarrow> jsonStringChars acc (k @ DQ # r) = Inr (acc @ k, r)"
  by (induction k arbitrary: acc) (simp_all add: isPlain_def)

lemma jsonMembers_entries:
  "es \<noteq> [] \<Longrightarrow>
   \<forall>x. jv (CHR '' '' # x) = jv x \<Longrightarrow>
   \<forall>(k, t, v) \<in> set es. list_all isPlain k \<and> solid t \<and> (\<forall>rs. tailOk rs \<longrightarrow> jv (t @ rs) = Inr (v, rs)) \<Longrightarrow>
   tailOk rest \<Longrightarrow> length es \<le> n \<Longrightarrow>
   jsonMembers jv n props (join '', '' (map (\<lambda>(k, t, v). entryText (k, t)) es) @ ''}'' @ rest)
     = Inr (VObj (storeAll props (map (\<lambda>(k, t, v). (k, v)) es)), rest)"
proof (induction es arbitrary: n props)
  case Nil
  then show ?case by simp
next
  case (Cons e es)
  obtain k t v where e: "e = (k, t, v)" by (cases e)
  from Cons.prems(5) obtain n' where n: "n = Suc n'" and n': "length es \<le> n'"
    by (cases n) auto
  from Cons.prems(3) have k: "list_all isPlain k" and t: "solid t"
    and jv: "\<And>rs. tailOk rs \<Longrightarrow> jv (t @ rs) = Inr (v, rs)"
    by (auto simp: e)
  have closeOk: "tailOk (CHR ''}'' # rest)"
    using Cons.prems(4) by (intro tailOk_close) simp_all
  have key: "jsonStringChars [] (k @ DQ # CHR '':'' # CHR '' '' # t @ x) = Inr (k, CHR '':'' # CHR '' '' # t @ x)" for x
    using jsonStringChars_plain [OF k, of "[]"] by simp
  have colon: "skipJsonSpace (CHR '':'' # x) = CHR '':'' # x" for x
    by (simp add: skipJsonSpace_def isJsonSpace_def)
  have sp: "jv (CHR '' '' # x) = jv x" for x
    using Cons.prems(2) by simp
  show ?case
  proof (cases es)
    case Nil
    have res: "jv (t @ CHR ''}'' # rest) = Inr (v, CHR ''}'' # rest)" by (rule jv [OF closeOk])
    have sk: "skipJsonSpace (CHR ''}'' # rest) = CHR ''}'' # rest" by (rule skipJsonSpace_tail [OF closeOk])
    show ?thesis
      by (simp add: n e Nil entryText_def key colon sp res sk storeAll_Cons storeAll_Nil)
  next
    case (Cons e2 es2)
    let ?J = "join '', '' (map (\<lambda>(k, t, v). entryText (k, t)) es)"
    let ?r = "'', '' @ ?J @ CHR ''}'' # rest"
    have solidJ: "solid ?J"
      using Cons.prems(3) Cons by (intro solid_join) (auto simp: e intro: solid_entry)
    have inner: "tailOk ?r"
      using tailOk_more [OF solidJ closeOk] by simp
    have input: "join '', '' (map (\<lambda>(k, t, v). entryText (k, t)) (e # es)) @ ''}'' @ rest
                   = entryText (k, t) @ ?r"
      by (simp add: e Cons)
    have res: "jv (t @ ?r) = Inr (v, ?r)" by (rule jv [OF inner])
    have sk: "skipJsonSpace ?r = ?r" by (rule skipJsonSpace_tail [OF inner])
    have sk2: "skipJsonSpace (CHR '' '' # ?J @ CHR ''}'' # rest) = ?J @ CHR ''}'' # rest"
      using skipJsonSpace_solid [OF solidJ, of "CHR ''}'' # rest"] by (simp add: skipJsonSpace_space)
    have IH: "jsonMembers jv n' (defineOwn props k v) (?J @ ''}'' @ rest)
                = Inr (VObj (storeAll (defineOwn props k v) (map (\<lambda>(k, t, v). (k, v)) es)), rest)"
      using Cons.prems(2,3,4) n' Cons by (intro Cons.IH) simp_all
    have et: "entryText (k, t) @ ?r = DQ # k @ DQ # CHR '':'' # CHR '' '' # t @ ?r"
      by (simp add: entryText_def)
    have step: "jsonMembers jv (Suc n') props (entryText (k, t) @ ?r)
                = jsonMembers jv n' (defineOwn props k v) (?J @ CHR ''}'' # rest)"
      unfolding et by (simp add: key colon sp res [simplified] sk [simplified] sk2)
    show ?thesis
      unfolding input n step using IH by (simp add: e storeAll_Cons)
  qed
qed

subsection \<open>Scalars in the strict parser\<close>

lemma length_join_mem: "x \<in> set xs \<Longrightarrow> length x \<le> length (join sep xs)"
proof (induction sep xs rule: join.induct)
  case (3 sep a b bs)
  then show ?case by (cases "x = a") auto
qed simp_all

lemma jsonNumber_natural:
  assumes "isNatural ds" and "tailOk rs"
  shows "jsonNumber (ds @ rs) = Some ds"
proof -
  from assms(1) obtain c cs where ds: "ds = c # cs" and c: "isDigit c" and dig: "list_all isDigit cs"
    and zero: "c = CHR ''0'' \<longrightarrow> cs = []"
    by (cases ds) (auto simp: isNatural_def)
  from c have nosign: "\<not> startsWith (c # cs @ rs) ''-''"
    by (auto simp: startsWith_def isDigit_def)
  have tw: "takeWhile isDigit (cs @ rs) = cs" by (rule takeWhile_digits_tail [OF dig assms(2)])
  have mf: "matchFraction rs = []" by (rule matchFraction_tail [OF assms(2)])
  have me: "matchExponent rs = []" by (rule matchExponent_tail [OF assms(2)])
  show ?thesis
  proof (cases "c = CHR ''0''")
    case True
    with zero have "cs = []" by simp
    with True show ?thesis
      unfolding jsonNumber_def Let_def ds
      by (simp add: startsWith_def isDigit_def mf me)
  next
    case False
    show ?thesis
      unfolding jsonNumber_def Let_def ds
      using nosign c False by (simp add: tw mf me)
  qed
qed

lemma jsonValue_null:
  "jsonValue pf (Suc n) (''null'' @ rs) = Inr (VNull, rs)"
  by (simp add: skipJsonSpace_def isJsonSpace_def startsWith_def)

lemma jsonValue_true:
  "jsonValue pf (Suc n) (''true'' @ rs) = Inr (VBool True, rs)"
  by (simp add: skipJsonSpace_def isJsonSpace_def startsWith_def)

lemma jsonValue_false:
  "jsonValue pf (Suc n) (''false'' @ rs) = Inr (VBool False, rs)"
  by (simp add: skipJsonSpace_def isJsonSpace_def startsWith_def)

lemma jsonValue_natural:
  assumes "isNatural ds" and "tailOk rs"
  shows "jsonValue pf (Suc n) (ds @ rs) = Inr (VNum (pf ds), rs)"
proof -
  from assms(1) obtain c cs where ds: "ds = c # cs" and c: "isDigit c"
    by (cases ds) (auto simp: isNatural_def)
  from c have sk: "skipJsonSpace (ds @ rs) = ds @ rs"
    by (auto simp: skipJsonSpace_def isJsonSpace_def isDigit_def ds)
  have jn: "jsonNumber (ds @ rs) = Some ds" by (rule jsonNumber_natural [OF assms])
  from c have first: "c \<noteq> CHR ''{'' \<and> c \<noteq> CHR ''['' \<and> c \<noteq> DQ \<and> c \<noteq> CHR ''t'' \<and> c \<noteq> CHR ''f'' \<and> c \<noteq> CHR ''n''"
    by (auto simp: isDigit_def)
  then have sw: "\<not> startsWith (ds @ rs) ''true''" "\<not> startsWith (ds @ rs) ''false''" "\<not> startsWith (ds @ rs) ''null''"
    by (auto simp: startsWith_def ds)
  have shape: "ds @ rs = c # (cs @ rs)" by (simp add: ds)
  have dr: "drop (length ds) (c # cs @ rs) = rs" by (simp add: ds)
  show ?thesis
    unfolding jsonValue.simps Let_def sk
    using first sw jn by (simp add: shape dr)
qed

lemma jsonValue_literal:
  assumes "list_all pieceOk ps"
  shows "jsonValue pf (Suc n) (literalText ps @ rs) = Inr (VStr (strictString ps), rs)"
  using jsonStringChars_pieces [OF assms, of "[]" rs]
  by (simp add: literalText_def skipJsonSpace_def isJsonSpace_def)

subsection \<open>The strict parser on the family\<close>

lemma jsonValue_elements:
  assumes items: "\<forall>(t, v) \<in> set items. solid t \<and> hd t \<noteq> CHR '']'' \<and>
      (\<forall>rs. tailOk rs \<longrightarrow> jsonValue pf n (t @ rs) = Inr (v, rs))"
    and rest: "tailOk rest"
    and count: "length items \<le> n"
  shows "jsonValue pf (Suc n) (''['' @ join '', '' (map fst items) @ '']'' @ rest)
           = Inr (VArr (map snd items), rest)"
proof (cases "items = []")
  case True
  show ?thesis
    by (simp add: True skipJsonSpace_def isJsonSpace_def)
next
  case False
  let ?J = "join '', '' (map fst items)"
  have closeOk: "tailOk (CHR '']'' # rest)"
    using rest by (intro tailOk_close) simp_all
  have solidJ: "solid ?J"
    using items False by (intro solid_join) auto
  from False obtain t v items' where first: "items = (t, v) # items'"
    by (cases items) auto
  with items have "solid t" and "hd t \<noteq> CHR '']''" by auto
  then have hdJ: "hd ?J \<noteq> CHR '']''"
    by (cases items') (auto simp: first solid_def)
  from solidJ obtain c J' where J: "?J = c # J'" by (cases ?J) (auto simp: solid_def)
  with hdJ have c: "c \<noteq> CHR '']''" by simp
  have sk: "skipJsonSpace (?J @ CHR '']'' # rest) = ?J @ CHR '']'' # rest"
    by (rule skipJsonSpace_solid [OF solidJ])
  have loop: "jsonElements (jsonValue pf n) n [] (?J @ '']'' @ rest) = Inr (VArr ([] @ map snd items), rest)"
  proof (rule jsonElements_items)
    show "items \<noteq> []" by (rule False)
    show "\<forall>x. jsonValue pf n (CHR '' '' # x) = jsonValue pf n x" by (simp add: jsonValue_space)
    show "\<forall>(t, v) \<in> set items. solid t \<and> (\<forall>rs. tailOk rs \<longrightarrow> jsonValue pf n (t @ rs) = Inr (v, rs))"
      using items by auto
    show "tailOk rest" by (rule rest)
    show "length items \<le> n" by (rule count)
  qed
  have "jsonValue pf (Suc n) (CHR ''['' # ?J @ CHR '']'' # rest)
          = jsonElements (jsonValue pf n) n [] (?J @ CHR '']'' # rest)"
    unfolding jsonValue.simps Let_def
    using c by (simp add: skipJsonSpace_def [of "CHR ''['' # _"] isJsonSpace_def sk, simp add: J)
  with loop show ?thesis by simp
qed

lemma jsonValue_entries:
  assumes es: "\<forall>(k, t, v) \<in> set es. list_all isPlain k \<and> solid t \<and>
      (\<forall>rs. tailOk rs \<longrightarrow> jsonValue pf n (t @ rs) = Inr (v, rs))"
    and rest: "tailOk rest"
    and count: "length es \<le> n"
  shows "jsonValue pf (Suc n) (''{'' @ join '', '' (map (\<lambda>(k, t, v). entryText (k, t)) es) @ ''}'' @ rest)
           = Inr (VObj (storeAll [] (map (\<lambda>(k, t, v). (k, v)) es)), rest)"
proof (cases "es = []")
  case True
  show ?thesis
    by (simp add: True skipJsonSpace_def isJsonSpace_def storeAll_Nil)
next
  case False
  let ?J = "join '', '' (map (\<lambda>(k, t, v). entryText (k, t)) es)"
  have solidJ: "solid ?J"
    using es False by (intro solid_join) (auto intro: solid_entry)
  from False obtain k t v es' where first: "es = (k, t, v) # es'"
    by (cases es) auto
  have hdJ: "hd ?J = DQ"
    by (cases es') (auto simp: first entryText_def)
  from solidJ obtain c J' where J: "?J = c # J'" by (cases ?J) (auto simp: solid_def)
  with hdJ have c: "c \<noteq> CHR ''}''" by simp
  have sk: "skipJsonSpace (?J @ CHR ''}'' # rest) = ?J @ CHR ''}'' # rest"
    by (rule skipJsonSpace_solid [OF solidJ])
  have loop: "jsonMembers (jsonValue pf n) n [] (?J @ ''}'' @ rest)
                = Inr (VObj (storeAll [] (map (\<lambda>(k, t, v). (k, v)) es)), rest)"
  proof (rule jsonMembers_entries)
    show "es \<noteq> []" by (rule False)
    show "\<forall>x. jsonValue pf n (CHR '' '' # x) = jsonValue pf n x" by (simp add: jsonValue_space)
    show "\<forall>(k, t, v) \<in> set es. list_all isPlain k \<and> solid t \<and>
            (\<forall>rs. tailOk rs \<longrightarrow> jsonValue pf n (t @ rs) = Inr (v, rs))"
      by (rule es)
    show "tailOk rest" by (rule rest)
    show "length es \<le> n" by (rule count)
  qed
  have "jsonValue pf (Suc n) (CHR ''{'' # ?J @ CHR ''}'' # rest)
          = jsonMembers (jsonValue pf n) n [] (?J @ CHR ''}'' # rest)"
    unfolding jsonValue.simps Let_def
    using c by (simp add: skipJsonSpace_def [of "CHR ''{'' # _"] isJsonSpace_def sk, simp add: J)
  with loop show ?thesis by simp
qed

lemma jsonValue_doc:
  "docOk d \<Longrightarrow> tailOk rs \<Longrightarrow> length (docText d) < n \<Longrightarrow>
   jsonValue pf n (docText d @ rs) = Inr (docValue strictString pf d, rs)"
proof (induction d arbitrary: n rs)
  case DNull
  then obtain n' where n: "n = Suc n'" by (cases n) auto
  show ?case
    using jsonValue_null [of pf n' rs] by (simp add: n del: jsonValue.simps)
next
  case (DBool b)
  then obtain n' where n: "n = Suc n'" by (cases n) auto
  show ?case
    using jsonValue_true [of pf n' rs] jsonValue_false [of pf n' rs]
    by (cases b) (simp_all add: n del: jsonValue.simps)
next
  case (DNat ds)
  then obtain n' where n: "n = Suc n'" by (cases n) auto
  from DNat.prems(1) have "isNatural ds" by simp
  from jsonValue_natural [OF this DNat.prems(2), of pf n'] show ?case
    by (simp add: n del: jsonValue.simps)
next
  case (DStr ps)
  then obtain n' where n: "n = Suc n'" by (cases n) auto
  from DStr.prems(1) have "list_all pieceOk ps" by simp
  from jsonValue_literal [OF this, of pf n' rs] show ?case
    by (simp add: n del: jsonValue.simps)
next
  case (DArr ds)
  from DArr.prems(3) obtain n' where n: "n = Suc n'" by (cases n) auto
  let ?items = "map (\<lambda>d. (docText d, docValue strictString pf d)) ds"
  have firsts: "map fst ?items = map docText ds"
    and seconds: "map snd ?items = map (docValue strictString pf) ds"
    by (simp_all add: comp_def)
  have input: "docText (DArr ds) @ rs = ''['' @ join '', '' (map fst ?items) @ '']'' @ rs"
    unfolding firsts by simp
  have ne: "\<forall>x \<in> set (map docText ds). x \<noteq> []"
    using docOk_elements [OF DArr.prems(1)] docText_shape by (auto simp: solid_def)
  have total: "length (join '', '' (map docText ds)) < n'"
    using DArr.prems(3) unfolding n by simp
  have items: "\<forall>(t, v) \<in> set ?items. solid t \<and> hd t \<noteq> CHR '']'' \<and>
      (\<forall>rs. tailOk rs \<longrightarrow> jsonValue pf n' (t @ rs) = Inr (v, rs))"
  proof -
    have "solid (docText d) \<and> hd (docText d) \<noteq> CHR '']'' \<and>
      (\<forall>rs. tailOk rs \<longrightarrow> jsonValue pf n' (docText d @ rs) = Inr (docValue strictString pf d, rs))"
      if d: "d \<in> set ds" for d
    proof -
      have ok: "docOk d" by (rule docOk_elements [OF DArr.prems(1) d])
      from d have "length (docText d) \<le> length (join '', '' (map docText ds))"
        by (intro length_join_mem) simp
      with total have "length (docText d) < n'" by simp
      with DArr.IH [OF d ok] docText_shape [OF ok] show ?thesis by blast
    qed
    then show ?thesis by simp
  qed
  have count: "length ?items \<le> n'"
    using length_join [OF ne, of "'', ''"] total by simp
  show ?case
    unfolding n input using jsonValue_elements [OF items DArr.prems(2) count] unfolding seconds
    by simp
next
  case (DObj es)
  from DObj.prems(3) obtain n' where n: "n = Suc n'" by (cases n) auto
  let ?es = "map (\<lambda>(k, d). (k, docText d, docValue strictString pf d)) es"
  have keys: "map (\<lambda>(k, t, v). entryText (k, t)) ?es = map entryText (map (map_prod id docText) es)"
    and vals: "map (\<lambda>(k, t, v). (k, v)) ?es = map (map_prod id (docValue strictString pf)) es"
    by (simp_all add: comp_def case_prod_beta map_prod_def)
  have input: "docText (DObj es) @ rs = ''{'' @ join '', '' (map (\<lambda>(k, t, v). entryText (k, t)) ?es) @ ''}'' @ rs"
    unfolding keys by simp
  have ne: "\<forall>x \<in> set (map entryText (map (map_prod id docText) es)). x \<noteq> []"
    by (auto simp: entryText_def)
  have total: "length (join '', '' (map entryText (map (map_prod id docText) es))) < n'"
    using DObj.prems(3) unfolding n by simp
  have entries: "\<forall>(k, t, v) \<in> set ?es. list_all isPlain k \<and> solid t \<and>
      (\<forall>rs. tailOk rs \<longrightarrow> jsonValue pf n' (t @ rs) = Inr (v, rs))"
  proof -
    have "list_all isPlain k \<and> solid (docText d) \<and>
      (\<forall>rs. tailOk rs \<longrightarrow> jsonValue pf n' (docText d @ rs) = Inr (docValue strictString pf d, rs))"
      if kd: "(k, d) \<in> set es" for k d
    proof -
      from docOk_entries [OF DObj.prems(1) kd] have k: "list_all isPlain k" and ok: "docOk d" by simp_all
      have "entryText (k, docText d) \<in> set (map entryText (map (map_prod id docText) es))"
        using kd by force
      then have "length (entryText (k, docText d)) \<le> length (join '', '' (map entryText (map (map_prod id docText) es)))"
        by (rule length_join_mem)
      with total have len: "length (docText d) < n'" by (simp add: entryText_def)
      have "d \<in> Basic_BNFs.snds (k, d)" by simp
      from DObj.IH [OF kd this ok _ len] docText_shape [OF ok] k show ?thesis by blast
    qed
    then show ?thesis by auto
  qed
  have count: "length ?es \<le> n'"
    using length_join [OF ne, of "'', ''"] total by simp
  show ?case
    unfolding n input using jsonValue_entries [OF entries DObj.prems(2) count] unfolding vals
    by simp
qed

lemma parseToon_doc:
  assumes "docOk d"
  shows "parseToon pf (docText d) = Inr (docValue strictString pf d)"
proof -
  have t: "tailOk []" by (simp add: tailOk_def)
  have "jsonValue pf (Suc (length (docText d))) (docText d @ []) = Inr (docValue strictString pf d, [])"
    by (rule jsonValue_doc [OF assms t]) simp
  then show ?thesis
    by (simp add: parseToon_def JSON_parse_def skipJsonSpace_def del: jsonValue.simps)
qed

subsection \<open>Storing a list of entries\<close>

lemma map_of_storeAll: "map_of (storeAll props es) = map_of props ++ map_of (rev es)"
proof (induction es arbitrary: props)
  case Nil
  show ?case by (simp add: storeAll_Nil)
next
  case (Cons e es)
  obtain k v where e: "e = (k, v)" by (cases e)
  have "map_of (storeAll props (e # es)) = map_of (defineOwn props k v) ++ map_of (rev es)"
    unfolding e storeAll_Cons by (rule Cons.IH)
  also have "\<dots> = (map_of props)(k \<mapsto> v) ++ map_of (rev es)"
    by (simp only: map_of_defineOwn)
  also have "\<dots> = map_of props ++ map_of (rev (e # es))"
    by (simp add: e map_add_upd_left fun_eq_iff map_add_def split: option.splits)
  finally show ?case .
qed

lemma ordered_storeAll:
  "ownKeysOrdered (map fst props) \<Longrightarrow> ownKeysOrdered (map fst (storeAll props es))"
proof (induction es arbitrary: props)
  case Nil
  then show ?case by (simp add: storeAll_Nil)
next
  case (Cons e es)
  obtain k v where e: "e = (k, v)" by (cases e)
  from Cons.prems have "ownKeysOrdered (map fst (defineOwn props k v))" by (rule ordered_defineOwn)
  then show ?case unfolding e storeAll_Cons by (rule Cons.IH)
qed

lemma other_keys_storeAll:
  "filter (\<lambda>x. \<not> isArrayIndex x) (map fst (storeAll props es))
     = filter (\<lambda>x. \<not> isArrayIndex x) (map fst props)
         @ filter (\<lambda>x. x \<notin> set (map fst props))
             (firstOccurrences (filter (\<lambda>x. \<not> isArrayIndex x) (map fst es)))"
proof (induction es arbitrary: props)
  case Nil
  show ?case by (simp add: storeAll_Nil)
next
  case (Cons e es)
  obtain k v where e: "e = (k, v)" by (cases e)
  let ?N = "firstOccurrences (filter (\<lambda>x. \<not> isArrayIndex x) (map fst es))"
  have keys: "set (map fst (defineOwn props k v)) = insert k (set (map fst props))"
    using map_of_defineOwn [of props k v] by (metis dom_fun_upd dom_map_of_conv_image_fst option.distinct(1) set_map)
  have IH: "filter (\<lambda>x. \<not> isArrayIndex x) (map fst (storeAll (defineOwn props k v) es))
     = filter (\<lambda>x. \<not> isArrayIndex x) (map fst (defineOwn props k v))
         @ filter (\<lambda>x. x \<notin> set (map fst (defineOwn props k v))) ?N"
    by (rule Cons.IH)
  have step: "filter (\<lambda>x. \<not> isArrayIndex x) (map fst (defineOwn props k v))
        = filter (\<lambda>x. \<not> isArrayIndex x) (map fst props)
            @ (if k \<in> set (map fst props) \<or> isArrayIndex k then [] else [k])"
    by (rule other_keys_defineOwn)
  have f: "filter (\<lambda>x. x \<notin> insert k (set (map fst props))) ?N
        = filter (\<lambda>x. x \<notin> set (map fst props)) (filter (\<lambda>x. x \<noteq> k) ?N)"
    by (simp add: conj_commute)
  show ?case
  proof (cases "isArrayIndex k")
    case True
    have "k \<notin> set ?N"
    proof
      assume "k \<in> set ?N"
      moreover have "set (firstOccurrences ks) \<subseteq> set ks" for ks
        by (induction ks) auto
      ultimately have "k \<in> set (filter (\<lambda>x. \<not> isArrayIndex x) (map fst es))" by blast
      with True show False by simp
    qed
    then have "filter (\<lambda>x. x \<noteq> k) ?N = ?N" by (auto simp: filter_id_conv)
    with True show ?thesis
      unfolding e storeAll_Cons IH step keys f by simp
  next
    case False
    show ?thesis
    proof (cases "k \<in> set (map fst props)")
      case True
      with False show ?thesis
        unfolding e storeAll_Cons IH step keys f by simp
    next
      case notin: False
      with False show ?thesis
        unfolding e storeAll_Cons IH step keys f by simp
    qed
  qed
qed

lemma storeAll_properties:
  "map_of (storeAll [] es) = map_of (rev es)
   \<and> ownKeysOrdered (map fst (storeAll [] es))
   \<and> filter (\<lambda>x. \<not> isArrayIndex x) (map fst (storeAll [] es))
       = firstOccurrences (filter (\<lambda>x. \<not> isArrayIndex x) (map fst es))"
  using map_of_storeAll [of "[]" es] ordered_storeAll [of "[]" es] other_keys_storeAll [of "[]" es]
  by simp

subsection \<open>Where the two parsers differ\<close>



subsection \<open>Input that is not a key\<close>

lemma parseKey_not_a_key:
  "s = c # r \<Longrightarrow> c \<noteq> DQ \<Longrightarrow> c \<noteq> SQ \<Longrightarrow> \<not> isIdentStart c \<Longrightarrow> parseKey s = Inl (ExpectedKey (take 30 s))"
  by (simp add: parseKey_def startsWith_def matchKey_def)

section \<open>The claims\<close>

text \<open>
  C1, as the specification states it: for every value tree \<open>V\<close>,
  \<^verbatim>\<open>parseJson(toJson(V))\<close> is \<open>V\<close>. The code does not do this for an object with the key
  \<^verbatim>\<open>__proto__\<close>: \<^verbatim>\<open>toJson\<close> writes the key, an identifier, without quotes, and
  \<^verbatim>\<open>parseJson\<close> stores it with \<^verbatim>\<open>obj[key] = value\<close>, which for this key calls the setter
  of \<^verbatim>\<open>Object.prototype\<close> and creates no property. The object
  \<^verbatim>\<open>{"__proto__": true}\<close>, which \<^verbatim>\<open>parseToon\<close> returns for that text, comes back as the
  empty object.
\<close>

theorem parseJson_toJson_proto:
  \<open>toJson showInt (VObj [(''__proto__'', VBool True)]) 0 = ''{\<newline>  __proto__: true\<newline>}''
   \<and> parseJson readInt (toJson showInt (VObj [(''__proto__'', VBool True)]) 0) = Inr (VObj [])\<close>
  by code_simp

text \<open>
  C2, as the specification states it, is about \<^verbatim>\<open>toJson\<close>: a non-empty array whose
  elements are all objects with at most 5 keys and only scalar values is rendered with
  each element as a single-line brace block. \<^verbatim>\<open>toJson\<close> has no such rule: it renders
  the example one entry per line, with unquoted keys.
\<close>

theorem toJson_compact_array_counterexample:
  \<open>toJson showInt (VArr [VObj [(''id'', VNum 1), (''name'', VStr ''Alice'')],
                          VObj [(''id'', VNum 2), (''name'', VStr ''Bob'')]]) 0
     \<noteq> ''[\<newline>  { "id": 1, "name": "Alice" },\<newline>  { "id": 2, "name": "Bob" }\<newline>]''\<close>
  by code_simp

text \<open>
  C2, amended: the rule is the one of \<^verbatim>\<open>toToon\<close>. For every such array and every
  indentation level \<^verbatim>\<open>toToon\<close> gives the brace blocks of the elements, joined by a
  comma and a line feed at one level deeper, inside the brackets; for the example it
  gives the text of the specification.
\<close>

theorem toToon_compact_array:
  fixes ts :: "'n \<Rightarrow> string"
  assumes "items \<noteq> []"
    and "\<forall>item \<in> set items. \<exists>ps. item = VObj ps \<and> length ps \<le> 5 \<and> (\<forall>(k, v) \<in> set ps. isScalar v)"
  shows \<open>toToon ts (VArr items) indent =
           ''['' @ [LF] @ repeat ''  '' (indent + 1)
             @ join ('','' @ [LF] @ repeat ''  '' (indent + 1)) (map (braceBlock ts) items)
             @ [LF] @ repeat ''  '' indent @ '']''
         \<and> toToon showInt (VArr [VObj [(''id'', VNum 1), (''name'', VStr ''Alice'')],
                                 VObj [(''id'', VNum 2), (''name'', VStr ''Bob'')]]) 0
           = ''[\<newline>  { "id": 1, "name": "Alice" },\<newline>  { "id": 2, "name": "Bob" }\<newline>]''\<close>
proof
  have items: "\<forall>item \<in> set items. isCompactItem item"
    using assms(2) by (auto simp: list_all_iff)
  then have ca: "isCompactArray items"
    by (simp add: isCompactArray_def list_all_iff)
  have blocks: "map (\<lambda>item. ''{ '' @ join '', '' (map (\<lambda>(key, val). quoted key @ '': '' @ toToon ts val 0)
            (case item of VObj ps \<Rightarrow> ps | _ \<Rightarrow> [])) @ '' }'') items = map (braceBlock ts) items"
  proof (rule map_cong [OF refl])
    fix x assume "x \<in> set items"
    with items have "isCompactItem x" by blast
    then show "''{ '' @ join '', '' (map (\<lambda>(key, val). quoted key @ '': '' @ toToon ts val 0)
            (case x of VObj ps \<Rightarrow> ps | _ \<Rightarrow> [])) @ '' }'' = braceBlock ts x"
      by (rule braceBlock_eq)
  qed
  have "toToon ts (VArr items) indent =
           ''['' @ [LF] @ repeat ''  '' (indent + 1)
             @ join ('','' @ [LF] @ repeat ''  '' (indent + 1))
                 (map (\<lambda>item. ''{ '' @ join '', '' (map (\<lambda>(key, val). quoted key @ '': '' @ toToon ts val 0)
                    (case item of VObj ps \<Rightarrow> ps | _ \<Rightarrow> [])) @ '' }'') items)
             @ [LF] @ repeat ''  '' indent @ '']''"
    using ca assms(1) by (simp add: Let_def)
  then show "toToon ts (VArr items) indent =
           ''['' @ [LF] @ repeat ''  '' (indent + 1)
             @ join ('','' @ [LF] @ repeat ''  '' (indent + 1)) (map (braceBlock ts) items)
             @ [LF] @ repeat ''  '' indent @ '']''"
    unfolding blocks .
next
  show \<open>toToon showInt (VArr [VObj [(''id'', VNum 1), (''name'', VStr ''Alice'')],
                                 VObj [(''id'', VNum 2), (''name'', VStr ''Bob'')]]) 0
           = ''[\<newline>  { "id": 1, "name": "Alice" },\<newline>  { "id": 2, "name": "Bob" }\<newline>]''\<close>
    by code_simp
qed

theorem toToon_compact_array_witness:
  \<open>toToon showInt (VArr [VObj [(''k'', VNull)]]) 2 = ''[\<newline>      { "k": null }\<newline>    ]''\<close>
proof -
  have nonempty: "[VObj [(''k'', VNull :: int value)]] \<noteq> []"
    by simp
  have compact: "\<forall>item \<in> set [VObj [(''k'', VNull :: int value)]].
           \<exists>ps. item = VObj ps \<and> length ps \<le> 5 \<and> (\<forall>(k, v) \<in> set ps. isScalar v)"
    by simp
  have "toToon showInt (VArr [VObj [(''k'', VNull)]]) 2 =
           ''['' @ [LF] @ repeat ''  '' (2 + 1)
             @ join ('','' @ [LF] @ repeat ''  '' (2 + 1)) (map (braceBlock showInt) [VObj [(''k'', VNull)]])
             @ [LF] @ repeat ''  '' 2 @ '']''"
    using toToon_compact_array [OF nonempty compact, of showInt 2] by (rule conjunct1)
  also have "\<dots> = ''[\<newline>      { \"k\": null }\<newline>    ]''"
    by code_simp
  finally show ?thesis .
qed

text \<open>
  C3, as the specification states it: \<^verbatim>\<open>toToon\<close> renders every non-empty array one
  element per line, each element rendered by \<^verbatim>\<open>toToon\<close> at the next level, and never
  as a single-line brace block. For the array \<^verbatim>\<open>[{"id": 1}]\<close> it gives a brace block;
  in the object \<^verbatim>\<open>{"a": [1, [2]]}\<close> it renders the elements of the array at level 0
  behind two spaces; and in \<^verbatim>\<open>{"a": [{"x": {"y": 1}}]}\<close> it renders the element of the
  array as a brace block that holds the rendering of \<^verbatim>\<open>{"y": 1}\<close> at level 0.
\<close>

theorem toToon_array_compact_counterexample:
  \<open>toToon showInt (VArr [VObj [(''id'', VNum 1)]]) 0 = ''[\<newline>  { "id": 1 }\<newline>]''
   \<and> toToon showInt (VArr [VObj [(''id'', VNum 1)]]) 0 \<noteq> linePerElement showInt [VObj [(''id'', VNum 1)]] 0
   \<and> toToon showInt (VObj [(''a'', VArr [VNum 1, VArr [VNum 2]])]) 0
       = ''{\<newline>  "a": [\<newline>  1,\<newline>  [\<newline>  2\<newline>]\<newline>]\<newline>}''
   \<and> toToon showInt (VObj [(''a'', VArr [VNum 1, VArr [VNum 2]])]) 0
       \<noteq> ''{\<newline>  "a": '' @ linePerElement showInt [VNum 1, VArr [VNum 2]] 1 @ ''\<newline>}''
   \<and> toToon showInt (VObj [(''a'', VArr [VObj [(''x'', VObj [(''y'', VNum 1)])]])]) 0
       = ''{\<newline>  "a": [\<newline>  { "x": {\<newline>  "y": 1\<newline>} }\<newline>]\<newline>}''
   \<and> toToon showInt (VObj [(''a'', VArr [VObj [(''x'', VObj [(''y'', VNum 1)])]])]) 0
       \<noteq> ''{\<newline>  "a": '' @ linePerElement showInt [VObj [(''x'', VObj [(''y'', VNum 1)])]] 1 @ ''\<newline>}''\<close>
  by code_simp

text \<open>
  C3, amended. \<^verbatim>\<open>toToon\<close>, called on a non-empty array at any level, renders it one
  element per line, each element rendered by \<^verbatim>\<open>toToon\<close> at the next level and prefixed
  by the indentation of that level, joined by a comma and a line feed inside the
  brackets, when some element is not an object with at most 5 keys and only scalar
  values; when every element is such an object it renders each element as a
  single-line brace block. \<^verbatim>\<open>toToon\<close> is not called on an array that is the value of an
  entry of an object rendered at level 0 with at most 5 entries, each a scalar or an
  array of at most 10 elements: in such an object a non-empty array is rendered inside
  its entry, between \<^verbatim>\<open>[\<close> and \<^verbatim>\<open>]\<close> at the start of a line, every element behind two
  spaces, an element that is an object as a single-line brace block whose values are
  rendered by \<^verbatim>\<open>toToon\<close> at level 0 whatever they are, any other element by \<^verbatim>\<open>toToon\<close>
  at level 0. Any other non-empty object renders the value of every entry by \<^verbatim>\<open>toToon\<close>
  at the next level.
\<close>

theorem toToon_array_rendering:
  fixes ts :: "'n \<Rightarrow> string"
  shows "(\<forall>items indent.
            items \<noteq> []
            \<and> (\<exists>item \<in> set items. \<forall>ps. item = VObj ps \<longrightarrow> 5 < length ps \<or> (\<exists>(k, v) \<in> set ps. \<not> isScalar v)) \<longrightarrow>
            toToon ts (VArr items) indent = linePerElement ts items indent)
       \<and> (\<forall>items indent.
            items \<noteq> []
            \<and> (\<forall>item \<in> set items. \<exists>ps. item = VObj ps \<and> length ps \<le> 5 \<and> (\<forall>(k, v) \<in> set ps. isScalar v)) \<longrightarrow>
            toToon ts (VArr items) indent =
              ''['' @ [LF] @ repeat ''  '' (indent + 1)
                @ join ('','' @ [LF] @ repeat ''  '' (indent + 1)) (map (braceBlock ts) items)
                @ [LF] @ repeat ''  '' indent @ '']'')
       \<and> (\<forall>props.
            props \<noteq> [] \<and> length props \<le> 5
            \<and> (\<forall>(k, v) \<in> set props. isScalar v \<or> (\<exists>xs. v = VArr xs \<and> length xs \<le> 10)) \<longrightarrow>
            toToon ts (VObj props) 0 =
              ''{'' @ [LF] @ ''  '' @ join ('','' @ [LF] @ ''  '') (map (inlineEntry ts) props) @ [LF] @ ''}'')
       \<and> (\<forall>props indent.
            props \<noteq> []
            \<and> (0 < indent \<or> 5 < length props
                \<or> (\<exists>(k, v) \<in> set props. \<not> isScalar v \<and> (\<forall>xs. v = VArr xs \<longrightarrow> 10 < length xs))) \<longrightarrow>
            toToon ts (VObj props) indent =
              ''{'' @ [LF]
                @ join ('','' @ [LF])
                    (map (\<lambda>(k, v). repeat ''  '' (indent + 1) @ [DQ] @ k @ [DQ] @ '': '' @ toToon ts v (indent + 1)) props)
                @ [LF] @ repeat ''  '' indent @ ''}'')"
proof (intro conjI allI impI)
  fix items :: "'n value list" and indent
  assume a: "items \<noteq> []
            \<and> (\<exists>item \<in> set items. \<forall>ps. item = VObj ps \<longrightarrow> 5 < length ps \<or> (\<exists>(k, v) \<in> set ps. \<not> isScalar v))"
  then have "\<not> isCompactArray items" by (intro not_compact_array) simp
  with a show "toToon ts (VArr items) indent = linePerElement ts items indent"
    by (intro toToon_line_form) simp_all
next
  fix items :: "'n value list" and indent
  assume a: "items \<noteq> []
            \<and> (\<forall>item \<in> set items. \<exists>ps. item = VObj ps \<and> length ps \<le> 5 \<and> (\<forall>(k, v) \<in> set ps. isScalar v))"
  then have "isCompactArray items" by (intro compact_array) simp
  with a show "toToon ts (VArr items) indent =
              ''['' @ [LF] @ repeat ''  '' (indent + 1)
                @ join ('','' @ [LF] @ repeat ''  '' (indent + 1)) (map (braceBlock ts) items)
                @ [LF] @ repeat ''  '' indent @ '']''"
    by (intro toToon_block_form) simp_all
next
  fix props :: "(string \<times> 'n value) list"
  assume a: "props \<noteq> [] \<and> length props \<le> 5
            \<and> (\<forall>(k, v) \<in> set props. isScalar v \<or> (\<exists>xs. v = VArr xs \<and> length xs \<le> 10))"
  then have "isCompactObject props" by (intro compact_object) simp_all
  with a show "toToon ts (VObj props) 0 =
              ''{'' @ [LF] @ ''  '' @ join ('','' @ [LF] @ ''  '') (map (inlineEntry ts) props) @ [LF] @ ''}''"
    by (intro toToon_inline_form) simp_all
next
  fix props :: "(string \<times> 'n value) list" and indent :: nat
  assume a: "props \<noteq> []
            \<and> (0 < indent \<or> 5 < length props
                \<or> (\<exists>(k, v) \<in> set props. \<not> isScalar v \<and> (\<forall>xs. v = VArr xs \<longrightarrow> 10 < length xs)))"
  then have "\<not> (isCompactObject props \<and> indent = 0)" by (intro not_compact_object) simp
  with a show "toToon ts (VObj props) indent =
              ''{'' @ [LF]
                @ join ('','' @ [LF])
                    (map (\<lambda>(k, v). repeat ''  '' (indent + 1) @ [DQ] @ k @ [DQ] @ '': '' @ toToon ts v (indent + 1)) props)
                @ [LF] @ repeat ''  '' indent @ ''}''"
    by (intro toToon_entry_form) simp_all
qed

theorem toToon_array_rendering_witness:
  \<open>toToon showInt (VArr [VNum 1, VArr [VObj [(''a'', VArr [])]]]) 0
     = ''[\<newline>  1,\<newline>  [\<newline>    {\<newline>      "a": []\<newline>    }\<newline>  ]\<newline>]''
   \<and> toToon showInt (VArr [VObj [(''k'', VNull)]]) 2 = ''[\<newline>      { "k": null }\<newline>    ]''
   \<and> toToon showInt (VObj [(''a'', VArr [VNum 1, VArr [VNum 2]]), (''b'', VArr [VObj [(''x'', VObj [(''y'', VNum 1)])]])]) 0
     = ''{\<newline>  "a": [\<newline>  1,\<newline>  [\<newline>  2\<newline>]\<newline>],\<newline>  "b": [\<newline>  { "x": {\<newline>  "y": 1\<newline>} }\<newline>]\<newline>}''
   \<and> toToon showInt (VObj [(''a'', VObj [(''b'', VArr [VNum 1])])]) 0
     = ''{\<newline>  "a": {\<newline>    "b": [\<newline>      1\<newline>    ]\<newline>  }\<newline>}''\<close>
proof -
  note main = toToon_array_rendering [where 'n = int and ts = showInt]
  have h1: "[VNum 1, VArr [VObj [(''a'', VArr [])]]] \<noteq> ([] :: int value list)
            \<and> (\<exists>item \<in> set [VNum 1, VArr [VObj [(''a'', VArr [])]] :: int value].
                  \<forall>ps. item = VObj ps \<longrightarrow> 5 < length ps \<or> (\<exists>(k, v) \<in> set ps. \<not> isScalar v))"
    by simp
  have a: "toToon showInt (VArr [VNum 1, VArr [VObj [(''a'', VArr [])]]]) 0
     = ''[\<newline>  1,\<newline>  [\<newline>    {\<newline>      \"a\": []\<newline>    }\<newline>  ]\<newline>]''"
  proof -
    have "toToon showInt (VArr [VNum 1, VArr [VObj [(''a'', VArr [])]]]) 0
        = linePerElement showInt [VNum 1, VArr [VObj [(''a'', VArr [])]]] 0"
      using main [THEN conjunct1, THEN spec, THEN spec, THEN mp, OF h1] .
    also have "\<dots> = ''[\<newline>  1,\<newline>  [\<newline>    {\<newline>      \"a\": []\<newline>    }\<newline>  ]\<newline>]''"
      by code_simp
    finally show ?thesis .
  qed
  have h2: "[VObj [(''k'', VNull)]] \<noteq> ([] :: int value list)
            \<and> (\<forall>item \<in> set [VObj [(''k'', VNull :: int value)]].
                  \<exists>ps. item = VObj ps \<and> length ps \<le> 5 \<and> (\<forall>(k, v) \<in> set ps. isScalar v))"
    by simp
  have b: "toToon showInt (VArr [VObj [(''k'', VNull)]]) 2 = ''[\<newline>      { \"k\": null }\<newline>    ]''"
  proof -
    have "toToon showInt (VArr [VObj [(''k'', VNull)]]) 2
        = ''['' @ [LF] @ repeat ''  '' (2 + 1)
                @ join ('','' @ [LF] @ repeat ''  '' (2 + 1)) (map (braceBlock showInt) [VObj [(''k'', VNull)]])
                @ [LF] @ repeat ''  '' 2 @ '']''"
      using main [THEN conjunct2, THEN conjunct1, THEN spec, THEN spec, THEN mp, OF h2] .
    also have "\<dots> = ''[\<newline>      { \"k\": null }\<newline>    ]''"
      by code_simp
    finally show ?thesis .
  qed
  let ?props = "[(''a'', VArr [VNum 1, VArr [VNum 2]]), (''b'', VArr [VObj [(''x'', VObj [(''y'', VNum 1)])]])] :: (string \<times> int value) list"
  have h3: "?props \<noteq> [] \<and> length ?props \<le> 5
            \<and> (\<forall>(k, v) \<in> set ?props. isScalar v \<or> (\<exists>xs. v = VArr xs \<and> length xs \<le> 10))"
    by simp
  have c: "toToon showInt (VObj ?props) 0
     = ''{\<newline>  \"a\": [\<newline>  1,\<newline>  [\<newline>  2\<newline>]\<newline>],\<newline>  \"b\": [\<newline>  { \"x\": {\<newline>  \"y\": 1\<newline>} }\<newline>]\<newline>}''"
  proof -
    have "toToon showInt (VObj ?props) 0
        = ''{'' @ [LF] @ ''  '' @ join ('','' @ [LF] @ ''  '') (map (inlineEntry showInt) ?props) @ [LF] @ ''}''"
      using main [THEN conjunct2, THEN conjunct2, THEN conjunct1, THEN spec, THEN mp, OF h3] .
    also have "\<dots> = ''{\<newline>  \"a\": [\<newline>  1,\<newline>  [\<newline>  2\<newline>]\<newline>],\<newline>  \"b\": [\<newline>  { \"x\": {\<newline>  \"y\": 1\<newline>} }\<newline>]\<newline>}''"
      by code_simp
    finally show ?thesis .
  qed
  let ?q = "[(''a'', VObj [(''b'', VArr [VNum 1])])] :: (string \<times> int value) list"
  have h4: "?q \<noteq> []
            \<and> (0 < (0::nat) \<or> 5 < length ?q
                \<or> (\<exists>(k, v) \<in> set ?q. \<not> isScalar v \<and> (\<forall>xs. v = VArr xs \<longrightarrow> 10 < length xs)))"
    by simp
  have d: "toToon showInt (VObj ?q) 0
     = ''{\<newline>  \"a\": {\<newline>    \"b\": [\<newline>      1\<newline>    ]\<newline>  }\<newline>}''"
  proof -
    have "toToon showInt (VObj ?q) 0
        = ''{'' @ [LF]
                @ join ('','' @ [LF])
                    (map (\<lambda>(k, v). repeat ''  '' (0 + 1) @ [DQ] @ k @ [DQ] @ '': '' @ toToon showInt v (0 + 1)) ?q)
                @ [LF] @ repeat ''  '' 0 @ ''}''"
      using main [THEN conjunct2, THEN conjunct2, THEN conjunct2, THEN spec, THEN spec, THEN mp, OF h4] .
    also have "\<dots> = ''{\<newline>  \"a\": {\<newline>    \"b\": [\<newline>      1\<newline>    ]\<newline>  }\<newline>}''"
      by code_simp
    finally show ?thesis .
  qed
  from a b c d show ?thesis by (intro conjI)
qed

text \<open>
  C4, as the specification states it: for every value tree \<open>V\<close>,
  \<^verbatim>\<open>parseToon(toToon(V))\<close> is \<open>V\<close>. \<^verbatim>\<open>toToon\<close> writes an object key between double quotes
  without escaping it, and it escapes in a string only the backslash, the double
  quote, line feed, carriage return and tab. For the object with the key \<^verbatim>\<open>a"b\<close> and
  for the string that is one backspace character its output is not JSON, and
  \<^verbatim>\<open>parseToon\<close> fails on it.
\<close>

theorem parseToon_toToon_unescaped:
  \<open>toToon showInt (VObj [([CHR ''a'', DQ, CHR ''b''], VNum 1)]) 0 = ''{\<newline>  "a"b": 1\<newline>}''
   \<and> parseToon readInt (toToon showInt (VObj [([CHR ''a'', DQ, CHR ''b''], VNum 1)]) 0)
       = Inl (InvalidToon JsonSyntaxError)
   \<and> toToon showInt (VStr [CHR 0x08]) 0 = [DQ, CHR 0x08, DQ]
   \<and> parseToon readInt (toToon showInt (VStr [CHR 0x08]) 0) = Inl (InvalidToon JsonSyntaxError)\<close>
  by code_simp




text \<open>
  C6: for every input string \<open>text\<close>, the JSON to TOON conversion is \<^verbatim>\<open>toToon\<close> applied to
  the result of \<^verbatim>\<open>parseJson\<close>, and it fails, with a message, exactly when \<^verbatim>\<open>parseJson\<close>
  fails on \<open>text\<close>. The conversion is the handler of the endpoint on a \<^verbatim>\<open>POST\<close> request
  whose data is \<open>text\<close>: the status is 200 and the body is \<^verbatim>\<open>toToon(parseJson(text))\<close>
  when \<^verbatim>\<open>parseJson\<close> returns, and the status is 400 with a message when it throws (for
  the empty string the handler answers before it parses, with its own message). The
  failure of \<^verbatim>\<open>parseJson\<close> is never the bound of the model.
\<close>

theorem jsonToToon_composition:
  fixes pf :: "string \<Rightarrow> 'n" and ts :: "'n \<Rightarrow> string"
  shows "(\<forall>v. parseJson pf text = Inr v \<longrightarrow>
            handler pf ts ''POST'' (StringData text) = (200, DataBody (toToon ts v 0)))
       \<and> (\<forall>e. parseJson pf text = Inl e \<longrightarrow>
            handler pf ts ''POST'' (StringData text)
              = (400, ErrorBody (if text = [] then ''Invalid input: expected a string'' else message e)))
       \<and> parseJson pf text \<noteq> Inl FuelExhausted"
proof (intro conjI allI impI)
  fix v assume ok: "parseJson pf text = Inr v"
  then have "text \<noteq> []" using parseJson_empty [of pf] by auto
  with ok show "handler pf ts ''POST'' (StringData text) = (200, DataBody (toToon ts v 0))"
    by (simp add: handler_def)
next
  fix e assume err: "parseJson pf text = Inl e"
  with parseJson_fuel [of pf "text"] have "e \<noteq> FuelExhausted" by auto
  then have "message e \<noteq> []" by (rule message_nonempty)
  with err show "handler pf ts ''POST'' (StringData text)
              = (400, ErrorBody (if text = [] then ''Invalid input: expected a string'' else message e))"
    by (simp add: handler_def)
next
  show "parseJson pf text \<noteq> Inl FuelExhausted" by (rule parseJson_fuel)
qed

theorem jsonToToon_composition_witness:
  \<open>handler readInt showInt ''POST'' (StringData ''{a: [1, "x"]}'')
     = (200, DataBody ''{\<newline>  "a": [\<newline>  1,\<newline>  "x"\<newline>]\<newline>}'')
   \<and> handler readInt showInt ''POST'' (StringData ''{a: 1} x'')
     = (400, ErrorBody ''Unexpected characters after parsed value:  x'')\<close>
proof -
  have ok: "parseJson readInt ''{a: [1, \"x\"]}'' = Inr (VObj [(''a'', VArr [VNum 1, VStr ''x''])])"
    by code_simp
  have err: "parseJson readInt ''{a: 1} x'' = Inl (UnexpectedCharacters '' x'')"
    by code_simp
  have out: "toToon showInt (VObj [(''a'', VArr [VNum 1, VStr ''x''])]) 0
       = ''{\<newline>  \"a\": [\<newline>  1,\<newline>  \"x\"\<newline>]\<newline>}''"
    by code_simp
  from jsonToToon_composition [of readInt "''{a: [1, \"x\"]}''" showInt] ok out
    jsonToToon_composition [of readInt "''{a: 1} x''" showInt] err
  show ?thesis by simp
qed

text \<open>
  C8: \<^verbatim>\<open>parseJson\<close> fails with \<^verbatim>\<open>Empty input\<close> for every input that is empty or only white
  space, and for every input on which \<^verbatim>\<open>parseValue\<close> returns a value and leaves
  something that is not white space it fails with the error that quotes the first 20
  characters of what is left.
\<close>

theorem parseJson_failures:
  fixes pf :: "string \<Rightarrow> 'n"
  shows "(trim input = [] \<longrightarrow> parseJson pf input = Inl EmptyInput)
       \<and> (\<forall>n v l rem. length (trim input) < n \<and> parseValue pf n (trim input) = Inr (v, l, rem)
              \<and> trim rem \<noteq> [] \<longrightarrow>
            parseJson pf input = Inl (UnexpectedCharacters (take 20 rem)))"
proof (intro conjI allI impI)
  assume "trim input = []"
  then show "parseJson pf input = Inl EmptyInput" by (simp add: parseJson_def)
next
  fix n v l rem
  assume a: "length (trim input) < n \<and> parseValue pf n (trim input) = Inr (v, l, rem) \<and> trim rem \<noteq> []"
  then have ne: "trim input \<noteq> []"
    using parseValue_Nil [of pf n "(v, l, rem)"] by auto
  from a have "parseValue pf (Suc (length (trim input))) (trim input) = Inr (v, l, rem)"
    using parseValue_bound [of "trim input" n "Suc (length (trim input))" pf] by simp
  with a ne show "parseJson pf input = Inl (UnexpectedCharacters (take 20 rem))"
    by (simp add: parseJson_def Let_def del: parseValue.simps)
qed

theorem parseJson_failures_witness:
  \<open>parseJson readInt ''   '' = Inl EmptyInput
   \<and> parseJson readInt ''{"a":1} garbage and more text here'' = Inl (UnexpectedCharacters '' garbage and more te'')\<close>
proof -
  have e: "trim ''   '' = []" by (simp add: trim_def isSpace_def)
  have t: "trim ''{\"a\":1} garbage and more text here'' = ''{\"a\":1} garbage and more text here''"
    by (simp add: trim_def isSpace_def)
  have v: "parseValue readInt 40 ''{\"a\":1} garbage and more text here''
            = Inr (VObj [(''a'', VNum 1)], True, '' garbage and more text here'')"
    by code_simp
  have r: "trim '' garbage and more text here'' \<noteq> []" by (simp add: trim_def isSpace_def)
  from parseJson_failures [of "''   ''" readInt] e
    parseJson_failures [of "''{\"a\":1} garbage and more text here''" readInt, THEN conjunct2, THEN spec, THEN spec, THEN spec, THEN spec,
      of 40 "VObj [(''a'', VNum 1)]" True "'' garbage and more text here''"] t v r
  show ?thesis by simp
qed

text \<open>
  C5: \<^verbatim>\<open>parseJson\<close> accepts \<^verbatim>\<open>{name: "Alice", age: 30}\<close> and gives the value that
  \<^verbatim>\<open>parseToon\<close> gives for \<^verbatim>\<open>{"name": "Alice", "age": 30}\<close>; and a key that matches
  \<^verbatim>\<open>[a-zA-Z_$][a-zA-Z0-9_$]*\<close>, followed by white space or not and by a colon, is parsed
  as the same key in double quotes is: by the key part of the loop, by the loop of
  \<^verbatim>\<open>parseObject\<close> in any state, and by \<^verbatim>\<open>parseJson\<close> for the first key of an object.
\<close>

theorem unquoted_key_acceptance:
  fixes pf :: "string \<Rightarrow> 'n" and pv :: "string \<Rightarrow> error + 'n ParseResult"
  shows \<open>parseJson readInt ''{name: "Alice", age: 30}''
            = Inr (VObj [(''name'', VStr ''Alice''), (''age'', VNum 30)])
       \<and> parseToon readInt ''{"name": "Alice", "age": 30}''
            = Inr (VObj [(''name'', VStr ''Alice''), (''age'', VNum 30)])
       \<and> (\<forall>k ws rest n obj. isIdentifier k \<and> list_all isSpace ws \<longrightarrow>
            parseKey (k @ ws @ '':'' @ rest) = parseKey ([DQ] @ k @ [DQ] @ ws @ '':'' @ rest)
            \<and> parseObjectLoop pv n obj (k @ ws @ '':'' @ rest)
                = parseObjectLoop pv n obj ([DQ] @ k @ [DQ] @ ws @ '':'' @ rest)
            \<and> parseJson pf (''{'' @ k @ ws @ '':'' @ rest)
                = parseJson pf (''{'' @ [DQ] @ k @ [DQ] @ ws @ '':'' @ rest))\<close>
proof (intro conjI allI impI)
  show \<open>parseJson readInt ''{name: "Alice", age: 30}''
            = Inr (VObj [(''name'', VStr ''Alice''), (''age'', VNum 30)])\<close>
    by code_simp
  show \<open>parseToon readInt ''{"name": "Alice", "age": 30}''
            = Inr (VObj [(''name'', VStr ''Alice''), (''age'', VNum 30)])\<close>
    by code_simp
next
  fix k ws rest n and obj :: "'n jsobject"
  assume a: "isIdentifier k \<and> list_all isSpace ws"
  then have k: "isIdentifier k" and ws: "list_all isSpace ws" by simp_all
  show "parseKey (k @ ws @ '':'' @ rest) = parseKey ([DQ] @ k @ [DQ] @ ws @ '':'' @ rest)"
    using parseKey_unquoted [OF k ws, of rest] parseKey_quoted [OF k ws, of rest] by simp
  show "parseObjectLoop pv n obj (k @ ws @ '':'' @ rest)
                = parseObjectLoop pv n obj ([DQ] @ k @ [DQ] @ ws @ '':'' @ rest)"
    using parseObjectLoop_key_equiv [OF k ws, of pv n obj rest] by simp
  show "parseJson pf (''{'' @ k @ ws @ '':'' @ rest)
                = parseJson pf (''{'' @ [DQ] @ k @ [DQ] @ ws @ '':'' @ rest)"
    using parseJson_key_equiv [OF k ws, of pf rest] by simp
qed

theorem unquoted_key_acceptance_witness:
  \<open>parseJson readInt ''{my_key$1  : [1], "b": 2}'' = parseJson readInt ''{"my_key$1"  : [1], "b": 2}''
   \<and> parseJson readInt ''{my_key$1  : [1], "b": 2}'' = Inr (VObj [(''my_key$1'', VArr [VNum 1]), (''b'', VNum 2)])\<close>
proof -
  have i: "isIdentifier ''my_key$1'' \<and> list_all isSpace ''  ''"
    by (simp add: isIdentifier_def isIdentStart_def isIdentPart_def isDigit_def isSpace_def)
  have "parseJson readInt (''{'' @ ''my_key$1'' @ ''  '' @ '':'' @ '' [1], \"b\": 2}'')
      = parseJson readInt (''{'' @ [DQ] @ ''my_key$1'' @ [DQ] @ ''  '' @ '':'' @ '' [1], \"b\": 2}'')"
    using unquoted_key_acceptance [where 'n = int and pf = readInt, THEN conjunct2, THEN conjunct2,
        THEN spec, THEN spec, THEN spec, THEN spec, THEN spec, THEN mp, OF i] by blast
  moreover have "parseJson readInt ''{my_key$1  : [1], \"b\": 2}''
       = Inr (VObj [(''my_key$1'', VArr [VNum 1]), (''b'', VNum 2)])"
    by code_simp
  ultimately show ?thesis by simp
qed

text \<open>
  C9, as the specification states it: after the value of an entry, after a comma and
  right after the opening brace, anything that is left other than \<^verbatim>\<open>}\<close> or \<^verbatim>\<open>,\<close> is a
  syntax error. After the opening brace and after a comma the parser reads the next
  entry: \<^verbatim>\<open>{a: 1}\<close> and \<^verbatim>\<open>{"a": 1, b: 2}\<close> are parsed. And a \<^verbatim>\<open>}\<close> after a comma, or a
  comma after the opening brace, is an error.
\<close>

theorem entry_after_brace_counterexample:
  \<open>parseJson readInt ''{a: 1}'' = Inr (VObj [(''a'', VNum 1)])
   \<and> parseJson readInt ''{"a": 1, b: 2}'' = Inr (VObj [(''a'', VNum 1), (''b'', VNum 2)])
   \<and> parseJson readInt ''{"a": 1, }'' = Inl (ExpectedKey ''}'')
   \<and> parseJson readInt ''{, "a": 1}'' = Inl (ExpectedKey '', "a": 1}'')\<close>
  by code_simp

text \<open>
  C9, amended. \<^verbatim>\<open>parseJson\<close> returns the object with the one entry \<^verbatim>\<open>a\<close> for
  \<^verbatim>\<open>{"a": 1\<close>, also for \<^verbatim>\<open>{"a": 1,\<close>, and the empty object for \<^verbatim>\<open>{\<close>. \<^verbatim>\<open>parseObject\<close>
  returns the empty object when \<^verbatim>\<open>}\<close> follows the opening brace and enters its loop
  otherwise. In the loop, in any state: where an entry would start (after the opening
  brace or after a comma), input that is used up ends the object, and anything else
  has to be an entry: an error of the key (in particular for input that starts with
  neither a quote nor a letter, \<^verbatim>\<open>_\<close> or \<^verbatim>\<open>$\<close>, such as \<^verbatim>\<open>}\<close> or \<^verbatim>\<open>,\<close>) or of the value is
  the error of the loop. After the value of an entry, input that is used up ends the
  object with the entry stored, \<^verbatim>\<open>}\<close> ends it and the rest of the input is left, a
  comma continues the loop behind it, and anything else is the error that quotes its
  first 30 characters.
\<close>

theorem object_implicit_end:
  fixes pv :: "string \<Rightarrow> error + 'n ParseResult"
  shows \<open>parseJson readInt ''{"a": 1'' = Inr (VObj [(''a'', VNum 1)])
       \<and> parseJson readInt ''{"a": 1,'' = Inr (VObj [(''a'', VNum 1)])
       \<and> parseJson readInt ''{'' = Inr (VObj [])
       \<and> (\<forall>n r. parseObject pv n (''{'' @ r)
              = (if startsWith (trim r) ''}'' then Inr (VObj [], True, substring (trim r) 1)
                 else parseObjectLoop pv n ([], True) (trim r)))
       \<and> (\<forall>n obj s. trim s = [] \<longrightarrow>
            parseObjectLoop pv (Suc n) obj s = Inr (VObj (fst obj), snd obj, []))
       \<and> (\<forall>n obj s e. trim s \<noteq> [] \<and> parseKey (trim s) = Inl e \<longrightarrow>
            parseObjectLoop pv (Suc n) obj s = Inl e)
       \<and> (\<forall>s c r. s = c # r \<and> c \<noteq> DQ \<and> c \<noteq> SQ \<and> \<not> isIdentStart c \<longrightarrow>
            parseKey s = Inl (ExpectedKey (take 30 s)))
       \<and> (\<forall>n obj s key r1 e. trim s \<noteq> [] \<and> parseKey (trim s) = Inr (key, r1) \<and> pv r1 = Inl e \<longrightarrow>
            parseObjectLoop pv (Suc n) obj s = Inl e)
       \<and> (\<forall>n obj s key r1 v vl r.
            trim s \<noteq> [] \<and> parseKey (trim s) = Inr (key, r1) \<and> pv r1 = Inr (v, vl, r) \<longrightarrow>
              (trim r = [] \<longrightarrow>
                 parseObjectLoop pv (Suc n) obj s
                   = Inr (VObj (fst (objSet obj key (v, vl))), snd (objSet obj key (v, vl)), []))
              \<and> (startsWith (trim r) ''}'' \<longrightarrow>
                 parseObjectLoop pv (Suc n) obj s
                   = Inr (VObj (fst (objSet obj key (v, vl))), snd (objSet obj key (v, vl)),
                          substring (trim r) 1))
              \<and> (startsWith (trim r) '','' \<longrightarrow>
                 parseObjectLoop pv (Suc n) obj s
                   = parseObjectLoop pv n (objSet obj key (v, vl)) (trim (substring (trim r) 1)))
              \<and> (trim r \<noteq> [] \<and> \<not> startsWith (trim r) ''}'' \<and> \<not> startsWith (trim r) '','' \<longrightarrow>
                 parseObjectLoop pv (Suc n) obj s = Inl (ExpectedCommaOrBrace (take 30 (trim r)))))\<close>
proof (intro conjI allI impI)
  show \<open>parseJson readInt ''{"a": 1'' = Inr (VObj [(''a'', VNum 1)])\<close> by code_simp
  show \<open>parseJson readInt ''{"a": 1,'' = Inr (VObj [(''a'', VNum 1)])\<close> by code_simp
  show \<open>parseJson readInt ''{'' = Inr (VObj [])\<close> by code_simp
next
  fix n r
  show "parseObject pv n (''{'' @ r)
              = (if startsWith (trim r) ''}'' then Inr (VObj [], True, substring (trim r) 1)
                 else parseObjectLoop pv n ([], True) (trim r))"
    by (simp add: parseObject_def startsWith_def substring_def Let_def)
next
  fix n and obj :: "'n jsobject" and s
  assume "trim s = []"
  then show "parseObjectLoop pv (Suc n) obj s = Inr (VObj (fst obj), snd obj, [])"
    by simp
next
  fix n and obj :: "'n jsobject" and s e
  assume "trim s \<noteq> [] \<and> parseKey (trim s) = Inl e"
  then show "parseObjectLoop pv (Suc n) obj s = Inl e"
    by (simp add: Let_def)
next
  fix s c r
  assume "s = c # r \<and> c \<noteq> DQ \<and> c \<noteq> SQ \<and> \<not> isIdentStart c"
  then show "parseKey s = Inl (ExpectedKey (take 30 s))"
    by (intro parseKey_not_a_key [of s c r]) simp_all
next
  fix n and obj :: "'n jsobject" and s key r1 e
  assume "trim s \<noteq> [] \<and> parseKey (trim s) = Inr (key, r1) \<and> pv r1 = Inl e"
  then show "parseObjectLoop pv (Suc n) obj s = Inl e"
    by (simp add: Let_def)
next
  fix n and obj :: "'n jsobject" and s key r1 v vl r
  assume a: "trim s \<noteq> [] \<and> parseKey (trim s) = Inr (key, r1) \<and> pv r1 = Inr (v, vl, r)"
  {
    assume "trim r = []"
    with a show "parseObjectLoop pv (Suc n) obj s
                   = Inr (VObj (fst (objSet obj key (v, vl))), snd (objSet obj key (v, vl)), [])"
      by (simp add: Let_def startsWith_def)
  }
  {
    assume "startsWith (trim r) ''}''"
    with a show "parseObjectLoop pv (Suc n) obj s
                   = Inr (VObj (fst (objSet obj key (v, vl))), snd (objSet obj key (v, vl)),
                          substring (trim r) 1)"
      by (simp add: Let_def)
  }
  {
    assume c: "startsWith (trim r) '',''"
    then have "\<not> startsWith (trim r) ''}''" by (auto simp: startsWith_def)
    with a c show "parseObjectLoop pv (Suc n) obj s
                   = parseObjectLoop pv n (objSet obj key (v, vl)) (trim (substring (trim r) 1))"
      by (simp add: Let_def)
  }
  {
    assume "trim r \<noteq> [] \<and> \<not> startsWith (trim r) ''}'' \<and> \<not> startsWith (trim r) '',''"
    with a show "parseObjectLoop pv (Suc n) obj s = Inl (ExpectedCommaOrBrace (take 30 (trim r)))"
      by (simp add: Let_def)
  }
qed

theorem object_implicit_end_witness:
  \<open>parseObjectLoop (parseValue readInt 5) (Suc 3) ([(''a'', VNum 1)], True) ''  ''
      = Inr (VObj [(''a'', VNum 1)], True, [])
   \<and> parseObjectLoop (parseValue readInt 5) (Suc 3) ([(''a'', VNum 1)], True) ''} x''
      = Inl (ExpectedKey ''} x'')
   \<and> parseKey '', b: 2'' = Inl (ExpectedKey '', b: 2'')
   \<and> parseObjectLoop (parseValue readInt 5) (Suc 3) ([], True) ''b: ?''
      = Inl (UnexpectedToken ''?'')
   \<and> parseObjectLoop (parseValue readInt 5) (Suc 3) ([], True) ''b: 2  ''
      = Inr (VObj [(''b'', VNum 2)], True, [])
   \<and> parseObjectLoop (parseValue readInt 5) (Suc 3) ([], True) ''b: 2 } x''
      = Inr (VObj [(''b'', VNum 2)], True, '' x'')
   \<and> parseObjectLoop (parseValue readInt 5) (Suc 3) ([], True) ''b: 2, c: 3''
      = Inr (VObj [(''b'', VNum 2), (''c'', VNum 3)], True, [])
   \<and> parseObjectLoop (parseValue readInt 5) (Suc 3) ([], True) ''b: 2 ]''
      = Inl (ExpectedCommaOrBrace '']'')\<close>
proof -
  note main = object_implicit_end [where 'n = int and pv = "parseValue readInt 5"]
  note rest = main [THEN conjunct2, THEN conjunct2, THEN conjunct2, THEN conjunct2]
  have t1: "trim ''  '' = []" by (simp add: trim_def isSpace_def)
  have a: "parseObjectLoop (parseValue readInt 5) (Suc 3) ([(''a'', VNum 1)], True) ''  ''
      = Inr (VObj [(''a'', VNum 1)], True, [])"
    using rest [THEN conjunct1,
        THEN spec [where x = 3], THEN spec [where x = "([(''a'', VNum 1)], True)"],
        THEN spec [where x = "''  ''"]] t1 by simp
  have t2: "trim ''} x'' = ''} x''" by (simp add: trim_def isSpace_def)
  have k2: "parseKey ''} x'' = Inl (ExpectedKey ''} x'')" by code_simp
  have b: "parseObjectLoop (parseValue readInt 5) (Suc 3) ([(''a'', VNum 1)], True) ''} x''
      = Inl (ExpectedKey ''} x'')"
    using rest [THEN conjunct2, THEN conjunct1,
        THEN spec [where x = 3], THEN spec [where x = "([(''a'', VNum 1)], True)"],
        THEN spec [where x = "''} x''"], THEN spec [where x = "ExpectedKey ''} x''"]] t2 k2
    by (simp del: parseValue.simps parseObjectLoop.simps)
  have c: "parseKey '', b: 2'' = Inl (ExpectedKey '', b: 2'')"
    using rest [THEN conjunct2, THEN conjunct2, THEN conjunct1,
        THEN spec [where x = "'', b: 2''"], THEN spec [where x = "CHR '',''"],
        THEN spec [where x = "'' b: 2''"]]
    by (simp add: isIdentStart_def)
  have t4: "trim ''b: ?'' = ''b: ?''" by (simp add: trim_def isSpace_def)
  have k4: "parseKey ''b: ?'' = Inr (''b'', ''?'')" by code_simp
  have v4: "parseValue readInt 5 ''?'' = Inl (UnexpectedToken ''?'')" by code_simp
  have d: "parseObjectLoop (parseValue readInt 5) (Suc 3) ([], True) ''b: ?''
      = Inl (UnexpectedToken ''?'')"
    using rest [THEN conjunct2, THEN conjunct2, THEN conjunct2, THEN conjunct1,
        THEN spec [where x = 3], THEN spec [where x = "([], True)"], THEN spec [where x = "''b: ?''"],
        THEN spec [where x = "''b''"], THEN spec [where x = "''?''"],
        THEN spec [where x = "UnexpectedToken ''?''"]] t4 k4 v4
    by (simp del: parseValue.simps parseObjectLoop.simps)
  note last = rest [THEN conjunct2, THEN conjunct2, THEN conjunct2, THEN conjunct2,
        THEN spec [where x = 3], THEN spec [where x = "([], True)"]]
  have st: "objSet ([], True) ''b'' (VNum (2::int), True) = ([(''b'', VNum 2)], True)"
    by (simp add: objSet_def defineOwn_def isArrayIndex_def isDigit_def)
  have t5: "trim ''b: 2  '' = ''b: 2''" by (simp add: trim_def isSpace_def)
  have k5: "parseKey ''b: 2'' = Inr (''b'', ''2'')" by code_simp
  have v5: "parseValue readInt 5 ''2'' = Inr (VNum 2, True, [])" by code_simp
  have e: "parseObjectLoop (parseValue readInt 5) (Suc 3) ([], True) ''b: 2  ''
      = Inr (VObj [(''b'', VNum 2)], True, [])"
    using last [THEN spec [where x = "''b: 2  ''"],
        THEN spec [where x = "''b''"], THEN spec [where x = "''2''"], THEN spec [where x = "VNum 2"],
        THEN spec [where x = True], THEN spec [where x = "[]"]] t5 k5 v5
    by (simp add: trim_Nil st del: parseValue.simps parseObjectLoop.simps)
  have t6: "trim ''b: 2 } x'' = ''b: 2 } x''" by (simp add: trim_def isSpace_def)
  have k6: "parseKey ''b: 2 } x'' = Inr (''b'', ''2 } x'')" by code_simp
  have v6: "parseValue readInt 5 ''2 } x'' = Inr (VNum 2, True, '' } x'')" by code_simp
  have r6: "trim '' } x'' = ''} x''" by (simp add: trim_def isSpace_def)
  have f: "parseObjectLoop (parseValue readInt 5) (Suc 3) ([], True) ''b: 2 } x''
      = Inr (VObj [(''b'', VNum 2)], True, '' x'')"
    using last [THEN spec [where x = "''b: 2 } x''"],
        THEN spec [where x = "''b''"], THEN spec [where x = "''2 } x''"], THEN spec [where x = "VNum 2"],
        THEN spec [where x = True], THEN spec [where x = "'' } x''"]] t6 k6 v6 r6
    by (simp add: st startsWith_def substring_def del: parseValue.simps parseObjectLoop.simps)
  have t7: "trim ''b: 2, c: 3'' = ''b: 2, c: 3''" by (simp add: trim_def isSpace_def)
  have k7: "parseKey ''b: 2, c: 3'' = Inr (''b'', ''2, c: 3'')" by code_simp
  have v7: "parseValue readInt 5 ''2, c: 3'' = Inr (VNum 2, True, '', c: 3'')" by code_simp
  have r7: "trim '', c: 3'' = '', c: 3''" by (simp add: trim_def isSpace_def)
  have n7: "parseObjectLoop (parseValue readInt 5) 3 ([(''b'', VNum 2)], True) (trim (substring '', c: 3'' 1))
      = Inr (VObj [(''b'', VNum 2), (''c'', VNum 3)], True, [])"
    by code_simp
  have g: "parseObjectLoop (parseValue readInt 5) (Suc 3) ([], True) ''b: 2, c: 3''
      = Inr (VObj [(''b'', VNum 2), (''c'', VNum 3)], True, [])"
    using last [THEN spec [where x = "''b: 2, c: 3''"],
        THEN spec [where x = "''b''"], THEN spec [where x = "''2, c: 3''"], THEN spec [where x = "VNum 2"],
        THEN spec [where x = True], THEN spec [where x = "'', c: 3''"]] t7 k7 v7 r7 n7
    by (simp add: st startsWith_def del: parseValue.simps parseObjectLoop.simps)
  have t8: "trim ''b: 2 ]'' = ''b: 2 ]''" by (simp add: trim_def isSpace_def)
  have k8: "parseKey ''b: 2 ]'' = Inr (''b'', ''2 ]'')" by code_simp
  have v8: "parseValue readInt 5 ''2 ]'' = Inr (VNum 2, True, '' ]'')" by code_simp
  have r8: "trim '' ]'' = '']''" by (simp add: trim_def isSpace_def)
  have h: "parseObjectLoop (parseValue readInt 5) (Suc 3) ([], True) ''b: 2 ]''
      = Inl (ExpectedCommaOrBrace '']'')"
    using last [THEN spec [where x = "''b: 2 ]''"],
        THEN spec [where x = "''b''"], THEN spec [where x = "''2 ]''"], THEN spec [where x = "VNum 2"],
        THEN spec [where x = True], THEN spec [where x = "'' ]''"]] t8 k8 v8 r8
    by (simp add: startsWith_def del: parseValue.simps parseObjectLoop.simps)
  from a b c d e f g h show ?thesis by (intro conjI)
qed

text \<open>
  C7, as the specification states it, ends: every parsed object has unique keys in
  first-appearance order. A JavaScript object lists its array-index keys first, in
  ascending numeric order: for \<^verbatim>\<open>{"b": 1, "1": 2}\<close> both parsers return the object
  whose keys are \<^verbatim>\<open>1\<close>, \<^verbatim>\<open>b\<close> in this order.
\<close>

theorem index_keys_first_counterexample:
  \<open>parseJson readInt ''{"b": 1, "1": 2}'' = Inr (VObj [(''1'', VNum 2), (''b'', VNum 1)])
   \<and> parseToon readInt ''{"b": 1, "1": 2}'' = Inr (VObj [(''1'', VNum 2), (''b'', VNum 1)])\<close>
  by code_simp

text \<open>
  C7, amended. Parsing \<^verbatim>\<open>{"a": 1, "a": 2}\<close> gives, in both parsers, the object with the
  single key \<^verbatim>\<open>a\<close> mapped to 2. For every text of the family \<open>docText\<close> (in the relaxed
  parser: without the key \<^verbatim>\<open>__proto__\<close>) each parser returns the value in which every
  object, at any depth, is the result of storing the entries of its literal from left
  to right, starting from the empty object (\<open>storeAll\<close>). Storing a list of entries
  gives the object that maps every key to the value of its last occurrence, whose keys
  are unique, with the array-index keys first in ascending numeric order and the other
  keys after them in the order of their first occurrences. On any input at all, every
  object that \<^verbatim>\<open>parseJson\<close> or \<^verbatim>\<open>parseToon\<close> returns, at any depth, has unique keys in
  that order; and in any state of the loop of \<^verbatim>\<open>parseObject\<close>, and of the loop over
  the members in \<^verbatim>\<open>JSON.parse\<close>, an entry whose key and value have been read is stored
  in the object before the loop returns the object or goes on behind the comma. Storing
  one entry maps its key to the new value and leaves the other keys and their order as
  they were, a new key that is not an array index going to the end; and the assignment
  of the relaxed parser stores an entry in this way for every key other than
  \<^verbatim>\<open>__proto__\<close>.
\<close>

theorem duplicate_key_overwrite:
  fixes pf :: "string \<Rightarrow> 'n"
    and pv :: "string \<Rightarrow> error + 'n ParseResult"
    and jv :: "string \<Rightarrow> jsonError + ('n value \<times> string)"
  shows \<open>parseJson readInt ''{"a": 1, "a": 2}'' = Inr (VObj [(''a'', VNum 2)])
       \<and> parseToon readInt ''{"a": 1, "a": 2}'' = Inr (VObj [(''a'', VNum 2)])
       \<and> (\<forall>d. docOk d \<longrightarrow> parseToon pf (docText d) = Inr (docValue strictString pf d))
       \<and> (\<forall>d. docOk d \<and> noProto d \<longrightarrow> parseJson pf (docText d) = Inr (docValue relaxedString pf d))
       \<and> (\<forall>dec es. docValue dec pf (DObj es) = VObj (storeAll [] (map (map_prod id (docValue dec pf)) es)))
       \<and> (\<forall>(es :: (string \<times> 'n value) list).
             map_of (storeAll [] es) = map_of (rev es)
             \<and> ownKeysOrdered (map fst (storeAll [] es))
             \<and> filter (\<lambda>x. \<not> isArrayIndex x) (map fst (storeAll [] es))
                 = firstOccurrences (filter (\<lambda>x. \<not> isArrayIndex x) (map fst es)))
       \<and> (\<forall>input v. parseJson pf input = Inr v \<longrightarrow> wellFormed v)
       \<and> (\<forall>input v. parseToon pf input = Inr v \<longrightarrow> wellFormed v)
       \<and> (\<forall>n obj s key r1 v vl r.
             trim s \<noteq> [] \<and> parseKey (trim s) = Inr (key, r1) \<and> pv r1 = Inr (v, vl, r) \<longrightarrow>
               (trim r = [] \<or> startsWith (trim r) ''}'' \<longrightarrow>
                  parseObjectLoop pv (Suc n) obj s
                    = Inr (VObj (fst (objSet obj key (v, vl))), snd (objSet obj key (v, vl)),
                           substring (trim r) 1))
               \<and> (startsWith (trim r) '','' \<longrightarrow>
                  parseObjectLoop pv (Suc n) obj s
                    = parseObjectLoop pv n (objSet obj key (v, vl)) (trim (substring (trim r) 1))))
       \<and> (\<forall>n props r key r1 r2 v r3 x r4.
             jsonStringChars [] r = Inr (key, r1) \<and> skipJsonSpace r1 = CHR '':'' # r2
             \<and> jv r2 = Inr (v, r3) \<and> skipJsonSpace r3 = x # r4 \<longrightarrow>
               (x = CHR ''}'' \<longrightarrow>
                  jsonMembers jv (Suc n) props (DQ # r) = Inr (VObj (defineOwn props key v), r4))
               \<and> (x = CHR '','' \<longrightarrow>
                  jsonMembers jv (Suc n) props (DQ # r)
                    = jsonMembers jv n (defineOwn props key v) (skipJsonSpace r4)))
       \<and> (\<forall>(ps :: (string \<times> 'n value) list) k v.
             map_of (defineOwn ps k v) = (map_of ps)(k \<mapsto> v)
             \<and> filter (\<lambda>x. \<not> isArrayIndex x) (map fst (defineOwn ps k v))
                 = filter (\<lambda>x. \<not> isArrayIndex x) (map fst ps)
                     @ (if k \<in> set (map fst ps) \<or> isArrayIndex k then [] else [k]))
       \<and> (\<forall>(obj :: 'n jsobject) key val.
             key \<noteq> ''__proto__'' \<longrightarrow> objSet obj key val = (defineOwn (fst obj) key (fst val), snd obj))\<close>
proof -
  have strictDoc: "\<forall>d. docOk d \<longrightarrow> parseToon pf (docText d) = Inr (docValue strictString pf d)"
    by (blast intro: parseToon_doc)
  have relaxedDoc: "\<forall>d. docOk d \<and> noProto d \<longrightarrow> parseJson pf (docText d) = Inr (docValue relaxedString pf d)"
    by (blast intro: parseJson_doc)
  have objects: "\<forall>dec es. docValue dec pf (DObj es) = VObj (storeAll [] (map (map_prod id (docValue dec pf)) es))"
    by simp
  have stored: "\<forall>(es :: (string \<times> 'n value) list).
             map_of (storeAll [] es) = map_of (rev es)
             \<and> ownKeysOrdered (map fst (storeAll [] es))
             \<and> filter (\<lambda>x. \<not> isArrayIndex x) (map fst (storeAll [] es))
                 = firstOccurrences (filter (\<lambda>x. \<not> isArrayIndex x) (map fst es))"
    by (intro allI storeAll_properties)
  have relaxed: "\<forall>input v. parseJson pf input = Inr v \<longrightarrow> wellFormed v"
    by (blast intro: parseJson_wellFormed)
  have strict: "\<forall>input v. parseToon pf input = Inr v \<longrightarrow> wellFormed v"
    by (blast intro: parseToon_wellFormed)
  have relaxedStep: "\<forall>n obj s key r1 v vl r.
             trim s \<noteq> [] \<and> parseKey (trim s) = Inr (key, r1) \<and> pv r1 = Inr (v, vl, r) \<longrightarrow>
               (trim r = [] \<or> startsWith (trim r) ''}'' \<longrightarrow>
                  parseObjectLoop pv (Suc n) obj s
                    = Inr (VObj (fst (objSet obj key (v, vl))), snd (objSet obj key (v, vl)),
                           substring (trim r) 1))
               \<and> (startsWith (trim r) '','' \<longrightarrow>
                  parseObjectLoop pv (Suc n) obj s
                    = parseObjectLoop pv n (objSet obj key (v, vl)) (trim (substring (trim r) 1)))"
  proof (intro allI impI conjI)
    fix n and obj :: "'n jsobject" and s key r1 v vl r
    assume a: "trim s \<noteq> [] \<and> parseKey (trim s) = Inr (key, r1) \<and> pv r1 = Inr (v, vl, r)"
    {
      assume "trim r = [] \<or> startsWith (trim r) ''}''"
      with a show "parseObjectLoop pv (Suc n) obj s
                    = Inr (VObj (fst (objSet obj key (v, vl))), snd (objSet obj key (v, vl)),
                           substring (trim r) 1)"
        by (auto simp: Let_def startsWith_def substring_def)
    }
    {
      assume c: "startsWith (trim r) '',''"
      then have "\<not> startsWith (trim r) ''}''" by (auto simp: startsWith_def)
      with a c show "parseObjectLoop pv (Suc n) obj s
                    = parseObjectLoop pv n (objSet obj key (v, vl)) (trim (substring (trim r) 1))"
        by (simp add: Let_def)
    }
  qed
  have strictStep: "\<forall>n props r key r1 r2 v r3 x r4.
             jsonStringChars [] r = Inr (key, r1) \<and> skipJsonSpace r1 = CHR '':'' # r2
             \<and> jv r2 = Inr (v, r3) \<and> skipJsonSpace r3 = x # r4 \<longrightarrow>
               (x = CHR ''}'' \<longrightarrow>
                  jsonMembers jv (Suc n) props (DQ # r) = Inr (VObj (defineOwn props key v), r4))
               \<and> (x = CHR '','' \<longrightarrow>
                  jsonMembers jv (Suc n) props (DQ # r)
                    = jsonMembers jv n (defineOwn props key v) (skipJsonSpace r4))"
    by simp
  have store: "\<forall>(ps :: (string \<times> 'n value) list) k v.
             map_of (defineOwn ps k v) = (map_of ps)(k \<mapsto> v)
             \<and> filter (\<lambda>x. \<not> isArrayIndex x) (map fst (defineOwn ps k v))
                 = filter (\<lambda>x. \<not> isArrayIndex x) (map fst ps)
                     @ (if k \<in> set (map fst ps) \<or> isArrayIndex k then [] else [k])"
    by (intro allI conjI map_of_defineOwn other_keys_defineOwn)
  have assign: "\<forall>(obj :: 'n jsobject) key val.
             key \<noteq> ''__proto__'' \<longrightarrow> objSet obj key val = (defineOwn (fst obj) key (fst val), snd obj)"
    using objSet_other_key by blast
  from overwrite_example_relaxed overwrite_example_strict strictDoc relaxedDoc objects stored
    relaxed strict relaxedStep strictStep store assign
  show ?thesis by (intro conjI)
qed

theorem duplicate_key_overwrite_witness:
  \<open>parseToon readInt ''{"a": 1, "a": 2, "b": {"x": null, "x": true}}''
      = Inr (VObj [(''a'', VNum 2), (''b'', VObj [(''x'', VBool True)])])
   \<and> parseJson readInt ''{"b": {"x": null, "x": true}, "10": "q", "b": [7], "9": 0}''
      = Inr (VObj [(''9'', VNum 0), (''10'', VStr ''q''), (''b'', VArr [VNum 7])])
   \<and> wellFormed (VObj [(''7'', VNum 0), (''10'', VNum 2), (''b'', VNum 1)] :: int value)
   \<and> wellFormed (VArr [VObj [(''2'', VNum 2), (''k'', VNum 3)]] :: int value)
   \<and> parseObjectLoop (parseValue readInt 5) (Suc 3) ([(''b'', VNum 1)], True) ''b: 2, c: 3''
      = Inr (VObj [(''b'', VNum 2), (''c'', VNum 3)], True, [])
   \<and> jsonMembers (jsonValue readInt 5) (Suc 3) [(''b'', VNum 1)] ''"b": 2}'' = Inr (VObj [(''b'', VNum 2)], [])
   \<and> objSet ([(''k'', VNum 1)], True) ''k'' (VNum (2 :: int), True) = ([(''k'', VNum 2)], True)\<close>
proof -
  note main = duplicate_key_overwrite [where 'n = int and pf = readInt
      and pv = "parseValue readInt 5" and jv = "jsonValue readInt 5"]
  let ?d1 = "DObj [(''a'', DNat ''1''), (''a'', DNat ''2''),
                   (''b'', DObj [(''x'', DNull), (''x'', DBool True)])]"
  have ok1: "docOk ?d1" by code_simp
  have t1: "docText ?d1 = ''{\"a\": 1, \"a\": 2, \"b\": {\"x\": null, \"x\": true}}''" by code_simp
  have v1: "docValue strictString readInt ?d1 = VObj [(''a'', VNum 2), (''b'', VObj [(''x'', VBool True)])]"
    by code_simp
  have w1: "parseToon readInt ''{\"a\": 1, \"a\": 2, \"b\": {\"x\": null, \"x\": true}}''
      = Inr (VObj [(''a'', VNum 2), (''b'', VObj [(''x'', VBool True)])])"
    using main [THEN conjunct2, THEN conjunct2, THEN conjunct1, THEN spec, THEN mp, OF ok1]
    unfolding t1 v1 .
  let ?d2 = "DObj [(''b'', DObj [(''x'', DNull), (''x'', DBool True)]), (''10'', DStr [Plain (CHR ''q'')]),
                   (''b'', DArr [DNat ''7'']), (''9'', DNat ''0'')]"
  have ok2: "docOk ?d2 \<and> noProto ?d2" by code_simp
  have t2: "docText ?d2 = ''{\"b\": {\"x\": null, \"x\": true}, \"10\": \"q\", \"b\": [7], \"9\": 0}''" by code_simp
  have v2: "docValue relaxedString readInt ?d2
              = VObj [(''9'', VNum 0), (''10'', VStr ''q''), (''b'', VArr [VNum 7])]"
    by code_simp
  have w2: "parseJson readInt ''{\"b\": {\"x\": null, \"x\": true}, \"10\": \"q\", \"b\": [7], \"9\": 0}''
      = Inr (VObj [(''9'', VNum 0), (''10'', VStr ''q''), (''b'', VArr [VNum 7])])"
    using main [THEN conjunct2, THEN conjunct2, THEN conjunct2, THEN conjunct1, THEN spec, THEN mp, OF ok2]
    unfolding t2 v2 .
  note rest = main [THEN conjunct2, THEN conjunct2, THEN conjunct2, THEN conjunct2, THEN conjunct2, THEN conjunct2]
  have p1: "parseJson readInt ''{b: 1, \"10\": 2, \"7\": 0}''
       = Inr (VObj [(''7'', VNum 0), (''10'', VNum 2), (''b'', VNum 1)])"
    by code_simp
  have p2: "parseToon readInt ''[{\"k\": 3, \"2\": 2}]''
       = Inr (VArr [VObj [(''2'', VNum 2), (''k'', VNum 3)]])"
    by code_simp
  have a: "wellFormed (VObj [(''7'', VNum 0), (''10'', VNum 2), (''b'', VNum 1)] :: int value)"
    using rest [THEN conjunct1, THEN spec, THEN spec, THEN mp, OF p1] .
  have b: "wellFormed (VArr [VObj [(''2'', VNum 2), (''k'', VNum 3)]] :: int value)"
    using rest [THEN conjunct2, THEN conjunct1, THEN spec, THEN spec, THEN mp, OF p2] .
  note steps = rest [THEN conjunct2, THEN conjunct2]
  have st: "objSet ([(''b'', VNum 1)], True) ''b'' (VNum (2::int), True) = ([(''b'', VNum 2)], True)"
    by (simp add: objSet_def defineOwn_def)
  have t7: "trim ''b: 2, c: 3'' = ''b: 2, c: 3''" by (simp add: trim_def isSpace_def)
  have k7: "parseKey ''b: 2, c: 3'' = Inr (''b'', ''2, c: 3'')" by code_simp
  have v7: "parseValue readInt 5 ''2, c: 3'' = Inr (VNum 2, True, '', c: 3'')" by code_simp
  have r7: "trim '', c: 3'' = '', c: 3''" by (simp add: trim_def isSpace_def)
  have n7: "parseObjectLoop (parseValue readInt 5) 3 ([(''b'', VNum 2)], True) (trim (substring '', c: 3'' 1))
      = Inr (VObj [(''b'', VNum 2), (''c'', VNum 3)], True, [])"
    by code_simp
  have g: "parseObjectLoop (parseValue readInt 5) (Suc 3) ([(''b'', VNum 1)], True) ''b: 2, c: 3''
      = Inr (VObj [(''b'', VNum 2), (''c'', VNum 3)], True, [])"
    using steps [THEN conjunct1, THEN spec [where x = 3], THEN spec [where x = "([(''b'', VNum 1)], True)"],
        THEN spec [where x = "''b: 2, c: 3''"],
        THEN spec [where x = "''b''"], THEN spec [where x = "''2, c: 3''"], THEN spec [where x = "VNum 2"],
        THEN spec [where x = True], THEN spec [where x = "'', c: 3''"]] t7 k7 v7 r7 n7
    by (simp add: st startsWith_def del: parseValue.simps parseObjectLoop.simps)
  have js: "jsonStringChars [] ''b\": 2}'' = Inr (''b'', '': 2}'')" by code_simp
  have s1: "skipJsonSpace '': 2}'' = CHR '':'' # '' 2}''" by code_simp
  have jv: "jsonValue readInt 5 '' 2}'' = Inr (VNum 2, ''}'')" by code_simp
  have s2: "skipJsonSpace ''}'' = CHR ''}'' # []" by code_simp
  have h: "jsonMembers (jsonValue readInt 5) (Suc 3) [(''b'', VNum 1)] ''\"b\": 2}'' = Inr (VObj [(''b'', VNum 2)], [])"
    using steps [THEN conjunct2, THEN conjunct1, THEN spec [where x = 3],
        THEN spec [where x = "[(''b'', VNum 1)]"], THEN spec [where x = "''b\": 2}''"],
        THEN spec [where x = "''b''"], THEN spec [where x = "'': 2}''"], THEN spec [where x = "'' 2}''"],
        THEN spec [where x = "VNum 2"], THEN spec [where x = "''}''"], THEN spec [where x = "CHR ''}''"],
        THEN spec [where x = "[]"]] js s1 jv s2
    by (simp add: defineOwn_def del: jsonValue.simps jsonMembers.simps)
  have k: "''k'' \<noteq> ''__proto__''" by simp
  have c: "objSet ([(''k'', VNum 1)], True) ''k'' (VNum (2 :: int), True) = ([(''k'', VNum 2)], True)"
    using steps [THEN conjunct2, THEN conjunct2, THEN conjunct2,
        THEN spec [where x = "([(''k'', VNum 1)], True)"], THEN spec [where x = "''k''"],
        THEN spec [where x = "(VNum 2, True)"], THEN mp, OF k]
    by (simp add: defineOwn_def)
  from w1 w2 a b g h c show ?thesis by (intro conjI)
qed

end
